theory Spec2Isabelle
  imports Complex_Main "HOL-Library.AList" "HOL-Library.Sublist" "HOL-Library.Product_Lexorder"
begin

section \<open>The job queue (src/lib/jobs/queue.ts)\<close>

text \<open>
  Times are milliseconds since the epoch (\<open>Date.now()\<close>, \<open>Date.getTime()\<close>), as
  integers. Job ids and job types are strings. The payload \<open>data\<close> of a job is opaque
  to the queue and is kept as a value of a type parameter.
\<close>

datatype JobStatus = pending | running | completed | failed | cancelled

text \<open>
  The three error strings that \<open>processJob\<close> writes into \<open>job.error\<close>, kept
  structured: \<open>`No handler registered for job type: ${type}`\<close>,
  \<open>`Attempt ${retryCount} failed: ${message}`\<close> and
  \<open>`Max retries exceeded. Final error: ${message}`\<close>.
\<close>

datatype JobError =
    NoHandlerRegistered string
  | AttemptFailed int string
  | MaxRetriesExceeded string

text \<open>
  \<open>job.result = { ...result, processingTime, completedAt }\<close>: the handler's result
  together with the two fields the queue adds.
\<close>

record 'r JobResult =
  handlerResult :: 'r
  processingTime :: int
  completedAt :: int

record ('d, 'r) Job =
  job_id :: string
  job_type :: string
  job_data :: 'd
  job_priority :: int
  job_maxRetries :: int
  job_retryCount :: int
  job_createdAt :: int
  job_nextRunAt :: int
  job_status :: JobStatus
  job_result :: "'r JobResult option"
  job_error :: "JobError option"
  job_idempotencyKey :: "string option"

record QueueConfig =
  maxConcurrency :: int
  retryDelayMs :: int
  maxRetries :: int
  cleanupIntervalMs :: int
  enableMonitoring :: bool

text \<open>
  The optional fields of the \<open>options\<close> argument of \<open>addJob\<close>; \<open>None\<close> is a
  field that is absent (\<open>undefined\<close>).
\<close>

record AddJobOptions =
  opt_priority :: "int option"
  opt_maxRetries :: "int option"
  opt_delayMs :: "int option"
  opt_idempotencyKey :: "string option"

text \<open>
  The state of a \<open>JobQueue\<close>. \<open>jobs\<close> is the \<open>Map\<close> from job id to job, as an
  association list in insertion order (the order \<open>Map.values()\<close> iterates in);
  \<open>handlers\<close> is the set of job types with a registered handler (what a handler
  does when called is an input of the model, see \<open>handlerSettled\<close>);
  \<open>running_ids\<close> is the \<open>Set\<close> \<open>running\<close>. \<open>invoked\<close> records, in order,
  the ids of the jobs whose handler has been called (the effect \<open>handler(job)\<close>).
\<close>

record ('d, 'r) JobQueue =
  jobs :: "(string \<times> ('d, 'r) Job) list"
  handlers :: "string set"
  running_ids :: "string set"
  config :: QueueConfig
  invoked :: "string list"

text \<open>JavaScript's \<open>x || d\<close> on an optional number: \<open>undefined\<close> and \<open>0\<close> are falsy.\<close>

definition orDefault :: "int option \<Rightarrow> int \<Rightarrow> int" where
  "orDefault x d = (case x of None \<Rightarrow> d | Some v \<Rightarrow> (if v = 0 then d else v))"

text \<open>Truthiness of an optional string: \<open>undefined\<close> and the empty string are falsy.\<close>

definition truthyKey :: "string option \<Rightarrow> bool" where
  "truthyKey k = (case k of None \<Rightarrow> False | Some s \<Rightarrow> s \<noteq> [])"

text \<open>
  \<open>Array.from(this.jobs.values()).find(j => j.idempotencyKey === key && j.status !==
  'cancelled')\<close>: the first job in insertion order.
\<close>

definition findExisting :: "(string \<times> ('d, 'r) Job) list \<Rightarrow> string option \<Rightarrow> ('d, 'r) Job option" where
  "findExisting js key =
     List.find (\<lambda>j. job_idempotencyKey j = key \<and> job_status j \<noteq> cancelled) (map snd js)"

text \<open>
  \<open>addJob(type, data, options)\<close>. The freshly generated id (\<open>generateJobId\<close> reads
  the clock and \<open>Math.random\<close>) and the current time are inputs. The result is the
  id returned and the queue afterwards. \<open>this.jobs.set\<close> is \<open>AList.update\<close>: it
  replaces the value of a key that is present and appends a new key at the end.
\<close>

definition addJob ::
  "string \<Rightarrow> int \<Rightarrow> string \<Rightarrow> 'd \<Rightarrow> AddJobOptions \<Rightarrow> ('d, 'r) JobQueue
     \<Rightarrow> string \<times> ('d, 'r) JobQueue" where
  "addJob jobId now ty dat options q =
     (let job = \<lparr> job_id = jobId, job_type = ty, job_data = dat,
                  job_priority = orDefault (opt_priority options) 5,
                  job_maxRetries = orDefault (opt_maxRetries options) (maxRetries (config q)),
                  job_retryCount = 0,
                  job_createdAt = now,
                  job_nextRunAt = now + orDefault (opt_delayMs options) 0,
                  job_status = pending,
                  job_result = None, job_error = None,
                  job_idempotencyKey = opt_idempotencyKey options \<rparr>
      in if truthyKey (opt_idempotencyKey options)
         then (case findExisting (jobs q) (opt_idempotencyKey options) of
                 Some existingJob \<Rightarrow> (job_id existingJob, q)
               | None \<Rightarrow> (jobId, q\<lparr>jobs := AList.update jobId job (jobs q)\<rparr>))
         else (jobId, q\<lparr>jobs := AList.update jobId job (jobs q)\<rparr>))"

definition getJob :: "string \<Rightarrow> ('d, 'r) JobQueue \<Rightarrow> ('d, 'r) Job option" where
  "getJob jobId q = map_of (jobs q) jobId"

definition registerHandler :: "string \<Rightarrow> ('d, 'r) JobQueue \<Rightarrow> ('d, 'r) JobQueue" where
  "registerHandler ty q = q\<lparr>handlers := insert ty (handlers q)\<rparr>"

text \<open>\<open>cancelJob(jobId)\<close>: the boolean returned and the queue afterwards.\<close>

definition cancelJob :: "string \<Rightarrow> ('d, 'r) JobQueue \<Rightarrow> bool \<times> ('d, 'r) JobQueue" where
  "cancelJob jobId q =
     (case map_of (jobs q) jobId of
        Some job \<Rightarrow>
          (if job_status job = pending
           then (True, q\<lparr>jobs := AList.update jobId (job\<lparr>job_status := cancelled\<rparr>) (jobs q)\<rparr>)
           else (False, q))
      | None \<Rightarrow> (False, q))"

text \<open>
  A mutation of the job object with id \<open>jobId\<close> that \<open>this.jobs\<close> holds.
\<close>

definition updateJob ::
  "string \<Rightarrow> (('d, 'r) Job \<Rightarrow> ('d, 'r) Job) \<Rightarrow> ('d, 'r) JobQueue \<Rightarrow> ('d, 'r) JobQueue" where
  "updateJob jobId f q =
     q\<lparr>jobs := map (\<lambda>(k, j). if k = jobId then (k, f j) else (k, j)) (jobs q)\<rparr>"

text \<open>
  \<open>processJob(job)\<close> up to its \<open>await handler(job)\<close>: the concurrency check, the
  job marked running, and the job failed at once when its type has no handler.
  Otherwise the handler is called (recorded in \<open>invoked\<close>) and the job stays
  \<open>running\<close> until the handler's promise settles.
\<close>

definition processJob_start :: "string \<Rightarrow> ('d, 'r) JobQueue \<Rightarrow> ('d, 'r) JobQueue" where
  "processJob_start jobId q =
     (case map_of (jobs q) jobId of
        None \<Rightarrow> q
      | Some job \<Rightarrow>
          if int (card (running_ids q)) \<ge> maxConcurrency (config q) then q
          else
            let q1 = updateJob jobId (\<lambda>j. j\<lparr>job_status := running\<rparr>)
                       (q\<lparr>running_ids := insert jobId (running_ids q)\<rparr>)
            in if job_type job \<notin> handlers q
               then (updateJob jobId
                       (\<lambda>j. j\<lparr>job_status := failed,
                               job_error := Some (NoHandlerRegistered (job_type job))\<rparr>) q1)
                    \<lparr>running_ids := running_ids q1 - {jobId}\<rparr>
               else q1\<lparr>invoked := invoked q1 @ [jobId]\<rparr>)"

text \<open>
  The rest of \<open>processJob\<close>, run when the handler's promise settles at time \<open>now\<close>:
  \<open>Inr r\<close> is a handler that returned \<open>r\<close>, \<open>Inl msg\<close> one that threw an error
  with message \<open>msg\<close>. \<open>startTime\<close> is the time the handler was called at. The
  \<open>finally\<close> block removes the id from \<open>running\<close> in both cases.
\<close>

definition handlerSettled ::
  "string \<Rightarrow> int \<Rightarrow> string + 'r \<Rightarrow> int \<Rightarrow> ('d, 'r) JobQueue \<Rightarrow> ('d, 'r) JobQueue" where
  "handlerSettled jobId startTime outcome now q =
     (let q1 =
        (case outcome of
           Inr r \<Rightarrow>
             updateJob jobId
               (\<lambda>j. j\<lparr>job_status := completed,
                       job_result := Some \<lparr>handlerResult = r, processingTime = now - startTime,
                                           completedAt = now\<rparr>\<rparr>) q
         | Inl msg \<Rightarrow>
             updateJob jobId
               (\<lambda>j. let j1 = j\<lparr>job_retryCount := job_retryCount j + 1\<rparr>
                     in if job_retryCount j1 < job_maxRetries j1
                        then j1\<lparr>job_status := pending,
                                 job_nextRunAt := now + retryDelayMs (config q) * job_retryCount j1,
                                 job_error := Some (AttemptFailed (job_retryCount j1) msg)\<rparr>
                        else j1\<lparr>job_status := failed,
                                 job_error := Some (MaxRetriesExceeded msg)\<rparr>) q)
      in q1\<lparr>running_ids := running_ids q1 - {jobId}\<rparr>)"

text \<open>
  \<open>processJobs()\<close>, one tick at time \<open>now\<close>: the pending jobs that are due,
  sorted by priority descending and then by creation time ascending (a stable sort, so
  insertion order decides among jobs equal in both), are started one after the other
  while the number of running jobs is below \<open>maxConcurrency\<close>.
\<close>

definition duePending :: "int \<Rightarrow> ('d, 'r) JobQueue \<Rightarrow> ('d, 'r) Job list" where
  "duePending now q =
     sort_key (\<lambda>j. (- job_priority j, job_createdAt j))
       (filter (\<lambda>j. job_status j = pending \<and> job_nextRunAt j \<le> now) (map snd (jobs q)))"

fun startAll :: "string list \<Rightarrow> ('d, 'r) JobQueue \<Rightarrow> ('d, 'r) JobQueue" where
  "startAll [] q = q"
| "startAll (jobId # rest) q =
     (if int (card (running_ids q)) \<ge> maxConcurrency (config q) then q
      else if jobId \<in> running_ids q then startAll rest q
      else startAll rest (processJob_start jobId q))"

definition processJobs :: "int \<Rightarrow> ('d, 'r) JobQueue \<Rightarrow> ('d, 'r) JobQueue" where
  "processJobs now q =
     (if int (card (running_ids q)) \<ge> maxConcurrency (config q) then q
      else startAll (map job_id (duePending now q)) q)"

text \<open>The constructor, for a given configuration: no jobs, no handlers, nothing running.\<close>

definition newJobQueue :: "QueueConfig \<Rightarrow> ('d, 'r) JobQueue" where
  "newJobQueue cfg = \<lparr> jobs = [], handlers = {}, running_ids = {}, config = cfg, invoked = [] \<rparr>"

text \<open>The defaults of the constructor when no environment variable is set.\<close>

definition defaultQueueConfig :: QueueConfig where
  "defaultQueueConfig = \<lparr> maxConcurrency = 5, retryDelayMs = 60000, maxRetries = 3,
                           cleanupIntervalMs = 3600000, enableMonitoring = True \<rparr>"

definition noOptions :: AddJobOptions where
  "noOptions = \<lparr> opt_priority = None, opt_maxRetries = None, opt_delayMs = None,
                  opt_idempotencyKey = None \<rparr>"

subsection \<open>Scenarios of the job queue\<close>

text \<open>
  A queue with the default configuration and a handler for the type \<open>t\<close>; payloads and
  handler results are of type \<open>unit\<close>.
\<close>

definition queueWithHandler :: "(unit, unit) JobQueue" where
  "queueWithHandler = registerHandler ''t'' (newJobQueue defaultQueueConfig)"

text \<open>
  A job added with \<open>maxRetries: 1\<close> at time 0, started by the tick at time 0, whose
  handler throws at time 10.
\<close>

definition oneAttemptQueue :: "(unit, unit) JobQueue" where
  "oneAttemptQueue =
     handlerSettled ''j1'' 0 (Inl ''boom'') 10
       (processJobs 0
         (snd (addJob ''j1'' 0 ''t'' () (noOptions\<lparr>opt_maxRetries := Some 1\<rparr>) queueWithHandler)))"

text \<open>A job added with the idempotency key \<open>k\<close> at time 0, still pending.\<close>

definition pendingQueue :: "(unit, unit) JobQueue" where
  "pendingQueue =
     snd (addJob ''j1'' 0 ''t'' () (noOptions\<lparr>opt_idempotencyKey := Some ''k''\<rparr>) queueWithHandler)"

text \<open>
  The same job, started by the tick at time 0, whose handler returns at time 10: the
  job is completed.
\<close>

definition completedQueue :: "(unit, unit) JobQueue" where
  "completedQueue = handlerSettled ''j1'' 0 (Inr ()) 10 (processJobs 0 pendingQueue)"

subsection \<open>A job whose handler always fails\<close>

text \<open>
  Rounds of one job against a handler that throws every time. In a round
  \<open>(late, failAt, msg)\<close> the tick \<open>processJobs\<close> comes \<open>late\<close> milliseconds
  after the job's \<open>nextRunAt\<close>, and, if the tick started the job, its handler throws
  the error \<open>msg\<close> at time \<open>failAt\<close>.
\<close>

fun failRounds ::
  "(nat \<times> int \<times> string) list \<Rightarrow> string \<Rightarrow> ('d, 'r) JobQueue \<Rightarrow> ('d, 'r) JobQueue" where
  "failRounds [] jobId q = q"
| "failRounds ((late, failAt, msg) # rounds) jobId q =
     (case getJob jobId q of
        None \<Rightarrow> q
      | Some job \<Rightarrow>
          let tick = job_nextRunAt job + int late;
              q1 = processJobs tick q;
              q2 = (if jobId \<in> running_ids q1
                    then handlerSettled jobId tick (Inl msg) failAt q1 else q1)
          in failRounds rounds jobId q2)"

text \<open>
  The job after one more failure of its handler at time \<open>failAt\<close>, with the retry
  delay \<open>delay\<close> (the \<open>catch\<close> block of \<open>processJob\<close>).
\<close>

definition failed_once :: "int \<Rightarrow> string \<Rightarrow> int \<Rightarrow> ('d, 'r) Job \<Rightarrow> ('d, 'r) Job" where
  "failed_once failAt msg delay j =
     (if job_retryCount j + 1 < job_maxRetries j
      then j\<lparr>job_retryCount := job_retryCount j + 1, job_status := pending,
              job_nextRunAt := failAt + delay * (job_retryCount j + 1),
              job_error := Some (AttemptFailed (job_retryCount j + 1) msg)\<rparr>
      else j\<lparr>job_retryCount := job_retryCount j + 1, job_status := failed,
              job_error := Some (MaxRetriesExceeded msg)\<rparr>)"

text \<open>
  A queue with the default configuration (\<open>maxRetries = 3\<close>) and one job, and five
  rounds of failure.
\<close>

definition failingQueue :: "(unit, unit) JobQueue" where
  "failingQueue = snd (addJob ''j1'' 0 ''t'' () noOptions queueWithHandler)"

definition fiveRounds :: "(nat \<times> int \<times> string) list" where
  "fiveRounds = [(0, 10, ''boom''), (0, 60020, ''boom''), (0, 180030, ''boom''),
                 (0, 400000, ''boom''), (0, 500000, ''boom'')]"

subsection \<open>The life of a queue\<close>

text \<open>
  \<open>cleanup()\<close> at time \<open>now\<close>: the completed and the failed jobs that were created
  more than 24 hours ago are deleted.
\<close>

definition cleanup :: "int \<Rightarrow> ('d, 'r) JobQueue \<Rightarrow> ('d, 'r) JobQueue" where
  "cleanup now q =
     (let cutoffDate = now - 24 * 60 * 60 * 1000
      in q\<lparr>jobs := filter (\<lambda>(jobId, job).
                         \<not> ((job_status job = completed \<or> job_status job = failed)
                            \<and> job_createdAt job < cutoffDate)) (jobs q)\<rparr>)"

text \<open>
  What can happen to a queue: \<open>addJob\<close> is called (with the id that
  \<open>generateJobId\<close> returns), a handler is registered, \<open>cancelJob\<close> is called, the
  timer of \<open>processJobs\<close> ticks, the promise of a handler that was called settles
  (\<open>startTime\<close> is the time of the call), the timer of \<open>cleanup\<close> fires. A handler
  returns a promise, which settles after the tick that called the handler; the promise
  of a call settles once, so the event counts only while the job is in \<open>running\<close>.
\<close>

datatype ('d, 'r) JobEvent =
    AddJob string int string 'd AddJobOptions
  | RegisterHandler string
  | CancelJob string
  | Tick int
  | HandlerSettles string int "string + 'r" int
  | Cleanup int

fun jqStep :: "('d, 'r) JobQueue \<Rightarrow> ('d, 'r) JobEvent \<Rightarrow> ('d, 'r) JobQueue" where
  "jqStep q (AddJob jobId now ty dat options) = snd (addJob jobId now ty dat options q)"
| "jqStep q (RegisterHandler ty) = registerHandler ty q"
| "jqStep q (CancelJob jobId) = snd (cancelJob jobId q)"
| "jqStep q (Tick now) = processJobs now q"
| "jqStep q (HandlerSettles jobId startTime outcome now) =
     (if jobId \<in> running_ids q then handlerSettled jobId startTime outcome now q else q)"
| "jqStep q (Cleanup now) = cleanup now q"

definition jqRun :: "('d, 'r) JobEvent list \<Rightarrow> ('d, 'r) JobQueue \<Rightarrow> ('d, 'r) JobQueue" where
  "jqRun evs q = foldl jqStep q evs"

text \<open>The ids that \<open>generateJobId\<close> returned for the calls of \<open>addJob\<close>, in order.\<close>

fun generatedIds :: "('d, 'r) JobEvent list \<Rightarrow> string list" where
  "generatedIds [] = []"
| "generatedIds (AddJob jobId now ty dat options # evs) = jobId # generatedIds evs"
| "generatedIds (e # evs) = generatedIds evs"

text \<open>How often the handler has been called for the job \<open>jobId\<close>.\<close>

definition executions :: "string \<Rightarrow> ('d, 'r) JobQueue \<Rightarrow> nat" where
  "executions jobId q = count_list (invoked q) jobId"

text \<open>
  What holds of a job stored under the key \<open>k\<close>, in every state of a queue: its
  \<open>retryCount\<close> counts the failures of its handler, and with its status it tells how
  often the handler has been called.
\<close>

definition jobInv :: "('d, 'r) JobQueue \<Rightarrow> string \<Rightarrow> ('d, 'r) Job \<Rightarrow> bool" where
  "jobInv q k j \<longleftrightarrow>
     job_id j = k
     \<and> (k \<in> running_ids q \<longleftrightarrow> job_status j = running)
     \<and> 0 \<le> job_retryCount j
     \<and> (0 < job_retryCount j \<longrightarrow> job_type j \<in> handlers q)
     \<and> (case job_status j of
          pending \<Rightarrow>
            int (executions k q) = job_retryCount j
            \<and> job_retryCount j < max 1 (job_maxRetries j)
            \<and> (0 < job_retryCount j \<longrightarrow>
                 (case job_error j of
                    Some (AttemptFailed n msg) \<Rightarrow> n = job_retryCount j
                  | _ \<Rightarrow> False))
        | cancelled \<Rightarrow>
            int (executions k q) = job_retryCount j
            \<and> job_retryCount j < max 1 (job_maxRetries j)
        | running \<Rightarrow>
            int (executions k q) = job_retryCount j + 1
            \<and> job_retryCount j < max 1 (job_maxRetries j)
            \<and> job_type j \<in> handlers q
        | completed \<Rightarrow>
            int (executions k q) = job_retryCount j + 1
            \<and> job_retryCount j < max 1 (job_maxRetries j)
        | failed \<Rightarrow>
            int (executions k q) = job_retryCount j
            \<and> (case job_error j of
                 Some (MaxRetriesExceeded msg) \<Rightarrow> job_retryCount j = max 1 (job_maxRetries j)
               | Some (NoHandlerRegistered ty) \<Rightarrow> job_retryCount j = 0
               | _ \<Rightarrow> False))"

text \<open>
  The invariant of a queue whose job ids all come from the set \<open>used\<close>: the keys are
  distinct, every job satisfies \<open>jobInv\<close>, and only stored jobs are running.
\<close>

definition jqInv :: "string set \<Rightarrow> ('d, 'r) JobQueue \<Rightarrow> bool" where
  "jqInv used q \<longleftrightarrow>
     distinct (map fst (jobs q))
     \<and> (\<forall>k j. map_of (jobs q) k = Some j \<longrightarrow> jobInv q k j)
     \<and> fst ` set (jobs q) \<subseteq> used
     \<and> set (invoked q) \<subseteq> used
     \<and> running_ids q \<subseteq> fst ` set (jobs q)"

text \<open>
  Two jobs of a type with a handler, added at time 0 to a queue with the default
  configuration (\<open>maxRetries = 3\<close>, \<open>retryDelayMs = 60000\<close>). The tick at time 0
  starts both. The handler of \<open>j2\<close> returns; the handler of \<open>j1\<close> throws at time 10,
  and again at time 60020 after the tick at 60010 has started the job once more. The
  tick at 180020 starts \<open>j1\<close> a third time.
\<close>

definition retryEvents :: "(unit, unit) JobEvent list" where
  "retryEvents =
     [RegisterHandler ''t'',
      AddJob ''j1'' 0 ''t'' () noOptions, AddJob ''j2'' 0 ''t'' () noOptions,
      Tick 0, HandlerSettles ''j2'' 0 (Inr ()) 5, HandlerSettles ''j1'' 0 (Inl ''boom'') 10,
      Tick 1000, Tick 60010, HandlerSettles ''j1'' 60010 (Inl ''boom'') 60020,
      Tick 180020]"

definition thirdAttempt :: "(unit, unit) JobQueue" where
  "thirdAttempt = jqRun retryEvents (newJobQueue defaultQueueConfig)"

text \<open>The same, and the handler of \<open>j1\<close> throws a third time, at time 180030.\<close>

definition afterRetries :: "(unit, unit) JobQueue" where
  "afterRetries =
     jqRun (retryEvents @ [HandlerSettles ''j1'' 180020 (Inl ''boom'') 180030])
       (newJobQueue defaultQueueConfig)"

text \<open>The job \<open>j1\<close> with \<open>k\<close> failures behind it.\<close>

definition jobJ1 :: "int \<Rightarrow> int \<Rightarrow> JobStatus \<Rightarrow> JobError option \<Rightarrow> (unit, unit) Job" where
  "jobJ1 k nextRun status err =
     \<lparr> job_id = ''j1'', job_type = ''t'', job_data = (), job_priority = 5,
       job_maxRetries = 3, job_retryCount = k, job_createdAt = 0, job_nextRunAt = nextRun,
       job_status = status, job_result = None, job_error = err,
       job_idempotencyKey = None \<rparr>"

definition jobJ2 :: "(unit, unit) Job" where
  "jobJ2 =
     \<lparr> job_id = ''j2'', job_type = ''t'', job_data = (), job_priority = 5,
       job_maxRetries = 3, job_retryCount = 0, job_createdAt = 0, job_nextRunAt = 0,
       job_status = completed,
       job_result = Some \<lparr>handlerResult = (), processingTime = 5, completedAt = 5\<rparr>,
       job_error = None, job_idempotencyKey = None \<rparr>"

section \<open>The load balancer (src/server/middleware/load-balancer.ts)\<close>

subsection \<open>Data\<close>

text \<open>
  A request is identified by a natural number: the triple \<open>req\<close>, \<open>res\<close>,
  \<open>next\<close> that Express hands to the middleware stands for one request, and the
  \<open>n\<close>-th call of the middleware gets the number \<open>n\<close>. The priority is a number
  that may be \<open>undefined\<close> (\<open>None\<close>): \<open>getRequestPriority\<close> returns
  \<open>priorityLevels.default\<close>, which a configured table need not have.
\<close>

record QueuedRequest =
  req :: nat
  timestamp :: int
  priority :: "int option"

record LoadBalancerConfig =
  maxConcurrentRequests :: int
  maxQueueSize :: int
  requestTimeout :: int
  priorityLevels :: "(string \<times> int) list"
  enableAdaptiveThrottling :: bool

text \<open>\<open>Partial<LoadBalancerConfig>\<close>, the argument of the constructor.\<close>

record PartialLoadBalancerConfig =
  p_maxConcurrentRequests :: "int option"
  p_maxQueueSize :: "int option"
  p_requestTimeout :: "int option"
  p_priorityLevels :: "(string \<times> int) list option"
  p_enableAdaptiveThrottling :: "bool option"

text \<open>
  What the load balancer does to the outside: it calls \<open>next()\<close> of a request (the
  request starts to run), or it answers a request itself with a status code (503 when the
  queue is full, 408 when the request waited too long).
\<close>

datatype Action = CallNext nat | Respond nat int

text \<open>
  The variables that one call of \<open>processRequest\<close> closes over: the flag
  \<open>responseHandled\<close> and the parameter \<open>startTime\<close>.
\<close>

record Closure =
  responseHandled :: bool
  startTime :: int

text \<open>
  The fields of the class, and with them: \<open>closures\<close>, the closure of
  \<open>processRequest\<close> for each request that was admitted (a request without one has
  an unwrapped \<open>res\<close> and no \<open>close\<close> listener); \<open>headersSent\<close>, the requests
  whose response has been sent; \<open>requestCount\<close>, the number of calls of the middleware
  so far; \<open>actions\<close>, what the load balancer has done, in order.
\<close>

record LoadBalancer =
  activeRequests :: int
  requestQueue :: "QueuedRequest list"
  lbConfig :: LoadBalancerConfig
  responseTimeHistory :: "int list"
  errorRateHistory :: "int list"
  lastAdaptiveCheck :: int
  closures :: "nat \<rightharpoonup> Closure"
  headersSent :: "nat set"
  requestCount :: nat
  actions :: "Action list"

text \<open>
  The table of the constructor, in the order of the object literal, which is the order
  \<open>Object.entries\<close> lists string keys in.
\<close>

definition defaultPriorityLevels :: "(string \<times> int) list" where
  "defaultPriorityLevels =
     [(''/api/health'', 10), (''/api/chat'', 8), (''/api/pos'', 9), (''/api/services'', 7),
      (''/api/staff'', 6), (''/api/appointments'', 5), (''/api/analytics'', 3),
      (''/api/marketing'', 2), (''/api/loyalty'', 2), (''default'', 1)]"

definition orElse :: "'a option \<Rightarrow> 'a \<Rightarrow> 'a" where
  "orElse x d = (case x of None \<Rightarrow> d | Some v \<Rightarrow> v)"

text \<open>
  The constructor at time \<open>now\<close>: the defaults, each overridden by the field of the
  argument when it is present (\<open>{...defaults, ...config}\<close>).
\<close>

definition newLoadBalancer :: "PartialLoadBalancerConfig \<Rightarrow> int \<Rightarrow> LoadBalancer" where
  "newLoadBalancer c now =
     \<lparr> activeRequests = 0, requestQueue = [],
       lbConfig = \<lparr> maxConcurrentRequests = orElse (p_maxConcurrentRequests c) 200,
                    maxQueueSize = orElse (p_maxQueueSize c) 1000,
                    requestTimeout = orElse (p_requestTimeout c) 45000,
                    priorityLevels = orElse (p_priorityLevels c) defaultPriorityLevels,
                    enableAdaptiveThrottling = orElse (p_enableAdaptiveThrottling c) True \<rparr>,
       responseTimeHistory = [], errorRateHistory = [], lastAdaptiveCheck = now,
       closures = Map.empty, headersSent = {}, requestCount = 0, actions = [] \<rparr>"

definition noOverrides :: PartialLoadBalancerConfig where
  "noOverrides = \<lparr> p_maxConcurrentRequests = None, p_maxQueueSize = None,
                    p_requestTimeout = None, p_priorityLevels = None,
                    p_enableAdaptiveThrottling = None \<rparr>"

text \<open>The singleton \<open>new LoadBalancer()\<close> of the module, created at time \<open>now\<close>.\<close>

definition loadBalancer :: "int \<Rightarrow> LoadBalancer" where
  "loadBalancer now = newLoadBalancer noOverrides now"

subsection \<open>Priorities and the queue\<close>

text \<open>
  \<open>getRequestPriority(path)\<close>: the entries in order, the key \<open>default\<close> skipped, the
  first pattern that the path starts with decides; otherwise
  \<open>priorityLevels.default\<close>, which is \<open>undefined\<close> (\<open>None\<close>) when the table has
  no such key.
\<close>

definition getRequestPriority :: "(string \<times> int) list \<Rightarrow> string \<Rightarrow> int option" where
  "getRequestPriority levels path =
     (case List.find (\<lambda>(pattern, p). pattern \<noteq> ''default'' \<and> prefix pattern path) levels of
        Some (pattern, p) \<Rightarrow> Some p
      | None \<Rightarrow> map_of levels ''default'')"

text \<open>
  The comparator \<open>(a, b) => b.priority - a.priority\<close>; the difference is \<open>NaN\<close>
  (\<open>None\<close>) when a priority is \<open>undefined\<close>.
\<close>

definition comparePriority :: "QueuedRequest \<Rightarrow> QueuedRequest \<Rightarrow> int option" where
  "comparePriority a b =
     (case (priority b, priority a) of
        (Some pb, Some pa) \<Rightarrow> Some (pb - pa)
      | _ \<Rightarrow> None)"

text \<open>
  \<open>Array.prototype.sort(cmp)\<close> is stable, and a comparator result \<open>NaN\<close> counts
  as \<open>+0\<close>. The model is insertion from the right, an element going in front of the
  first one it does not compare greater than. For a consistent comparator every stable
  sort returns this list; for an inconsistent one (a \<open>NaN\<close> among the results) the
  language leaves the order to the implementation.
\<close>

fun insertSorted :: "('a \<Rightarrow> 'a \<Rightarrow> int option) \<Rightarrow> 'a \<Rightarrow> 'a list \<Rightarrow> 'a list" where
  "insertSorted cmp x [] = [x]"
| "insertSorted cmp x (y # ys) =
     (if orElse (cmp x y) 0 \<le> 0 then x # y # ys else y # insertSorted cmp x ys)"

definition arraySort :: "('a \<Rightarrow> 'a \<Rightarrow> int option) \<Rightarrow> 'a list \<Rightarrow> 'a list" where
  "arraySort cmp xs = foldr (insertSorted cmp) xs []"

text \<open>\<open>res.status(code).json(...)\<close> by the load balancer itself, on an unwrapped \<open>res\<close>.\<close>

definition respond :: "nat \<Rightarrow> int \<Rightarrow> LoadBalancer \<Rightarrow> LoadBalancer" where
  "respond r code s =
     s\<lparr>headersSent := insert r (headersSent s), actions := actions s @ [Respond r code]\<rparr>"

text \<open>\<open>queueRequest(req, res, next)\<close> for the request \<open>r\<close> with path \<open>path\<close>.\<close>

definition queueRequest :: "nat \<Rightarrow> string \<Rightarrow> int \<Rightarrow> LoadBalancer \<Rightarrow> LoadBalancer" where
  "queueRequest r path now s =
     (if int (length (requestQueue s)) \<ge> maxQueueSize (lbConfig s) then respond r 503 s
      else
        let queuedRequest = \<lparr> req = r, timestamp = now,
                                priority = getRequestPriority (priorityLevels (lbConfig s)) path \<rparr>
        in s\<lparr>requestQueue := arraySort comparePriority (requestQueue s @ [queuedRequest])\<rparr>)"

text \<open>
  \<open>processRequest(req, res, next, startTime)\<close>: the counter goes up, \<open>res\<close> is
  wrapped (a closure with \<open>responseHandled = false\<close>), and \<open>next()\<close> is called.
  What the handler behind \<open>next()\<close> does to \<open>res\<close> arrives as later events.
\<close>

definition processRequest :: "nat \<Rightarrow> int \<Rightarrow> LoadBalancer \<Rightarrow> LoadBalancer" where
  "processRequest r start s =
     s\<lparr>activeRequests := activeRequests s + 1,
       closures := (closures s)(r \<mapsto> \<lparr>responseHandled = False, startTime = start\<rparr>),
       actions := actions s @ [CallNext r]\<rparr>"

text \<open>
  \<open>processNextInQueue()\<close> at time \<open>now\<close>: the head of the queue is taken; a head
  that waited longer than \<open>requestTimeout\<close> is answered 408 (unless its headers were
  sent) and the next one is tried.
\<close>

function processNextInQueue :: "int \<Rightarrow> LoadBalancer \<Rightarrow> LoadBalancer" where
  "processNextInQueue now s =
     (case requestQueue s of
        [] \<Rightarrow> s
      | queuedRequest # rest \<Rightarrow>
          if activeRequests s \<ge> maxConcurrentRequests (lbConfig s) then s
          else
            let s1 = s\<lparr>requestQueue := rest\<rparr>;
                queueTime = now - timestamp queuedRequest
            in if queueTime > requestTimeout (lbConfig s1)
               then processNextInQueue now
                      (if req queuedRequest \<notin> headersSent s1
                       then respond (req queuedRequest) 408 s1 else s1)
               else processRequest (req queuedRequest) (timestamp queuedRequest) s1)"
  by pat_completeness auto
termination
  by (relation "measure (\<lambda>(now, s). length (requestQueue s))") (auto simp: respond_def)

text \<open>
  \<open>timeoutQueuedRequest(queuedRequest)\<close>, the timer of a queued request: the request
  is spliced out of the queue, if it is still there, and answered 408.
\<close>

fun spliceOut :: "nat \<Rightarrow> QueuedRequest list \<Rightarrow> QueuedRequest list" where
  "spliceOut r [] = []"
| "spliceOut r (q # qs) = (if req q = r then qs else q # spliceOut r qs)"

definition timeoutQueuedRequest :: "nat \<Rightarrow> LoadBalancer \<Rightarrow> LoadBalancer" where
  "timeoutQueuedRequest r s =
     (if r \<notin> req ` set (requestQueue s) then s
      else
        let s1 = s\<lparr>requestQueue := spliceOut r (requestQueue s)\<rparr>
        in if r \<notin> headersSent s1 then respond r 408 s1 else s1)"

subsection \<open>Adaptive throttling\<close>

definition recordResponseTime :: "int \<Rightarrow> LoadBalancer \<Rightarrow> LoadBalancer" where
  "recordResponseTime responseTime s =
     (let h = responseTimeHistory s @ [responseTime]
      in s\<lparr>responseTimeHistory := (if length h > 100 then tl h else h)\<rparr>)"

definition recordErrorRate :: "int \<Rightarrow> LoadBalancer \<Rightarrow> LoadBalancer" where
  "recordErrorRate isError s =
     (let h = errorRateHistory s @ [isError]
      in s\<lparr>errorRateHistory := (if length h > 100 then tl h else h)\<rparr>)"

text \<open>
  \<open>values.reduce((a, b) => a + b, 0) / values.length\<close>, as an exact quotient; the
  quotient of an empty array is \<open>NaN\<close> (\<open>None\<close>), and every comparison with
  \<open>NaN\<close> is false. Response times are integers (differences of \<open>Date.now()\<close>) and
  the histories hold at most 100 of them, so the double that JavaScript computes lies on
  the same side of each threshold below as the exact quotient.
\<close>

definition mean :: "int list \<Rightarrow> rat option" where
  "mean xs = (if xs = [] then None else Some (of_int (sum_list xs) / of_nat (length xs)))"

definition above :: "rat option \<Rightarrow> rat \<Rightarrow> bool" where
  "above x c = (case x of None \<Rightarrow> False | Some v \<Rightarrow> v > c)"

definition below :: "rat option \<Rightarrow> rat \<Rightarrow> bool" where
  "below x c = (case x of None \<Rightarrow> False | Some v \<Rightarrow> v < c)"

text \<open>\<open>getPercentile(values, percentile)\<close>, on integers.\<close>

definition getPercentile :: "int list \<Rightarrow> int \<Rightarrow> int" where
  "getPercentile vals percentile =
     (if vals = [] then 0
      else
        let sorted = sort vals;
            index = \<lceil>(of_int percentile / 100) * of_nat (length sorted) :: rat\<rceil> - 1
        in sorted ! nat (max 0 (min index (int (length sorted) - 1))))"

text \<open>
  \<open>checkAdaptiveThrottling()\<close> at time \<open>now\<close>. \<open>Math.floor(limit * 0.3)\<close> and
  \<open>Math.floor(limit * 0.2)\<close> are taken on exact products.
\<close>

definition setLimit :: "int \<Rightarrow> LoadBalancer \<Rightarrow> LoadBalancer" where
  "setLimit n s = s\<lparr>lbConfig := (lbConfig s)\<lparr>maxConcurrentRequests := n\<rparr>\<rparr>"

definition checkAdaptiveThrottling :: "int \<Rightarrow> LoadBalancer \<Rightarrow> LoadBalancer" where
  "checkAdaptiveThrottling now s =
     (if now - lastAdaptiveCheck s < 5000 then s
      else
        let s1 = s\<lparr>lastAdaptiveCheck := now\<rparr>
        in if length (responseTimeHistory s1) < 5 then s1
           else
             let avgResponseTime = mean (responseTimeHistory s1);
                 errorRate = mean (errorRateHistory s1);
                 p95ResponseTime = getPercentile (responseTimeHistory s1) 95;
                 limit = maxConcurrentRequests (lbConfig s1)
             in if above avgResponseTime 10000 \<or> above errorRate (2 / 10)
                     \<or> p95ResponseTime > 15000
                then
                  let reduction = min 50 \<lfloor>of_int limit * (3 / 10) :: rat\<rfloor>
                  in setLimit (max 20 (limit - reduction)) s1
                else if above avgResponseTime 5000 \<or> above errorRate (1 / 10)
                          \<or> p95ResponseTime > 8000
                then
                  let reduction = min 20 \<lfloor>of_int limit * (2 / 10) :: rat\<rfloor>
                  in setLimit (max 30 (limit - reduction)) s1
                else if below avgResponseTime 2000 \<and> below errorRate (2 / 100)
                          \<and> p95ResponseTime < 3000
                then setLimit (min 400 (limit + 10)) s1
                else if below avgResponseTime 1000 \<and> below errorRate (1 / 100)
                then setLimit (min 500 (limit + 15)) s1
                else s1)"

subsection \<open>The middleware and the response handler\<close>

text \<open>
  The middleware, called at time \<open>now\<close> for a new request with path \<open>path\<close>
  (\<open>startTime\<close> and the \<open>timestamp\<close> of \<open>queueRequest\<close> are both read from the
  clock within this call).
\<close>

definition middleware :: "string \<Rightarrow> int \<Rightarrow> LoadBalancer \<Rightarrow> LoadBalancer" where
  "middleware path now s =
     (let r = requestCount s;
          s0 = s\<lparr>requestCount := r + 1\<rparr>
      in if activeRequests s0 \<ge> maxConcurrentRequests (lbConfig s0)
         then queueRequest r path now s0
         else processRequest r now s0)"

text \<open>
  \<open>handleResponse(statusCode)\<close> of the closure of request \<open>r\<close>, at time \<open>now\<close>.
\<close>

definition handleResponse :: "nat \<Rightarrow> int \<Rightarrow> int \<Rightarrow> LoadBalancer \<Rightarrow> LoadBalancer" where
  "handleResponse r statusCode now s =
     (case closures s r of
        None \<Rightarrow> s
      | Some c \<Rightarrow>
          if responseHandled c then s
          else
            let s1 = s\<lparr>closures := (closures s)(r \<mapsto> c\<lparr>responseHandled := True\<rparr>),
                       activeRequests := activeRequests s - 1\<rparr>;
                s2 = recordResponseTime (now - startTime c) s1;
                s3 = recordErrorRate (if statusCode \<ge> 400 then 1 else 0) s2;
                s4 = processNextInQueue now s3
            in if enableAdaptiveThrottling (lbConfig s4)
               then checkAdaptiveThrottling now s4 else s4)"

text \<open>
  What can happen to the load balancer: a request comes in; the handler of a request
  calls \<open>res.send\<close> or \<open>res.json\<close>, or the connection of a request closes, with
  \<open>res.statusCode\<close> as it is then; the timer of a queued request fires. The wrapped
  \<open>send\<close> and \<open>json\<close> call \<open>handleResponse\<close> and then the original method,
  which sends the headers; the \<open>close\<close> listener calls
  \<open>handleResponse(res.statusCode || 499)\<close>.
\<close>

datatype Signal = ResSend | ResJson | ResClose

datatype LbEvent =
    Incoming string int
  | ResponseSignal nat Signal int int
  | QueueTimerFired nat

fun lbStep :: "LoadBalancer \<Rightarrow> LbEvent \<Rightarrow> LoadBalancer" where
  "lbStep s (Incoming path now) = middleware path now s"
| "lbStep s (ResponseSignal r ResClose statusCode now) =
     handleResponse r (if statusCode = 0 then 499 else statusCode) now s"
| "lbStep s (ResponseSignal r sig statusCode now) =
     (let s1 = handleResponse r statusCode now s
      in s1\<lparr>headersSent := insert r (headersSent s1)\<rparr>)"
| "lbStep s (QueueTimerFired r) = timeoutQueuedRequest r s"

definition lbRun :: "LbEvent list \<Rightarrow> LoadBalancer \<Rightarrow> LoadBalancer" where
  "lbRun evs s = foldl lbStep s evs"

subsection \<open>Prefix-free tables; sampled states\<close>

text \<open>
  A table in which no pattern is a prefix of another pattern (the key \<open>default\<close> is
  no pattern): at most one pattern matches a path.
\<close>

definition prefixFree :: "(string \<times> int) list \<Rightarrow> bool" where
  "prefixFree levels =
     list_all (\<lambda>(k1, v1). list_all (\<lambda>(k2, v2).
        k1 = ''default'' \<or> k2 = ''default'' \<or> \<not> prefix k1 k2 \<or> (k1 = k2 \<and> v1 = v2))
        levels) levels"

abbreviation limit :: "LoadBalancer \<Rightarrow> int" where
  "limit s \<equiv> maxConcurrentRequests (lbConfig s)"

text \<open>
  A sequence of control ticks. Each tick \<open>(late, responseTimes, errors)\<close> runs
  \<open>checkAdaptiveThrottling\<close> 5000 milliseconds, and \<open>late\<close> more, after the last
  check, on the two histories as the requests in between have left them.
\<close>

fun controlTicks :: "(nat \<times> int list \<times> int list) list \<Rightarrow> LoadBalancer \<Rightarrow> LoadBalancer" where
  "controlTicks [] s = s"
| "controlTicks ((late, responseTimes, errors) # ticks) s =
     controlTicks ticks
       (checkAdaptiveThrottling (lastAdaptiveCheck s + 5000 + int late)
          (s\<lparr>responseTimeHistory := responseTimes, errorRateHistory := errors\<rparr>))"

text \<open>
  Ticks on five responses without errors: all of 100 ms (good performance); four of 0 ms
  and one of 3000 ms (excellent on average, but the 95th percentile is not below 3000);
  all of 6000 ms (high load); all of 20000 ms (extreme load).
\<close>

definition goodTick :: "nat \<times> int list \<times> int list" where
  "goodTick = (0, [100, 100, 100, 100, 100], [0, 0, 0, 0, 0])"

definition excellentTick :: "nat \<times> int list \<times> int list" where
  "excellentTick = (0, [0, 0, 0, 0, 3000], [0, 0, 0, 0, 0])"

definition moderateTick :: "nat \<times> int list \<times> int list" where
  "moderateTick = (0, [6000, 6000, 6000, 6000, 6000], [0, 0, 0, 0, 0])"

definition extremeTick :: "nat \<times> int list \<times> int list" where
  "extremeTick = (0, [20000, 20000, 20000, 20000, 20000], [0, 0, 0, 0, 0])"

text \<open>
  The singleton with the concurrency limit at \<open>n\<close> and five recorded responses with
  the given response times, none of them an error.
\<close>

definition sampled :: "int \<Rightarrow> int list \<Rightarrow> LoadBalancer" where
  "sampled n samples =
     setLimit n ((loadBalancer 0)\<lparr>responseTimeHistory := samples,
                                   errorRateHistory := [0, 0, 0, 0, 0]\<rparr>)"

subsection \<open>Invariants and scenarios of the load balancer\<close>

text \<open>
  The requests in flight: admitted (\<open>processRequest\<close> was called for them) and not
  yet finished (\<open>responseHandled\<close> is still false), as a list in order of arrival
  and as a set.
\<close>

definition inFlight :: "LoadBalancer \<Rightarrow> nat list" where
  "inFlight s =
     filter (\<lambda>r. case closures s r of None \<Rightarrow> False | Some c \<Rightarrow> \<not> responseHandled c)
       [0..<requestCount s]"

definition inflightSet :: "LoadBalancer \<Rightarrow> nat set" where
  "inflightSet s = {r. \<exists>c. closures s r = Some c \<and> \<not> responseHandled c}"

text \<open>
  The invariant of the load balancer: the counter is the number of requests in flight;
  only requests that have arrived have a closure; a queued request has arrived and has no
  closure; no request is queued twice.
\<close>

definition lbInv :: "LoadBalancer \<Rightarrow> bool" where
  "lbInv s \<longleftrightarrow>
     activeRequests s = int (card (inflightSet s))
     \<and> (\<forall>r. closures s r \<noteq> None \<longrightarrow> r < requestCount s)
     \<and> (\<forall>q \<in> set (requestQueue s). req q < requestCount s \<and> closures s (req q) = None)
     \<and> distinct (map req (requestQueue s))"


text \<open>
  The order of the admission queue: \<open>a\<close> may stand in front of \<open>b\<close> when its
  priority is higher, or the priorities are equal and \<open>a\<close> did not arrive later.
\<close>

definition queueOrder :: "QueuedRequest \<Rightarrow> QueuedRequest \<Rightarrow> bool" where
  "queueOrder a b =
     (case (priority a, priority b) of
        (Some pa, Some pb) \<Rightarrow> pa > pb \<or> (pa = pb \<and> timestamp a \<le> timestamp b)
      | _ \<Rightarrow> False)"


text \<open>
  The invariant of the queue at clock value \<open>T\<close>: the queue is in order, every queued
  request arrived at \<open>T\<close> or before and has a defined priority, and the table has a
  default.
\<close>

definition queueInv :: "int \<Rightarrow> LoadBalancer \<Rightarrow> bool" where
  "queueInv T s \<longleftrightarrow>
     sorted_wrt queueOrder (requestQueue s)
     \<and> (\<forall>q \<in> set (requestQueue s). timestamp q \<le> T \<and> priority q \<noteq> None)
     \<and> map_of (priorityLevels (lbConfig s)) ''default'' \<noteq> None"

text \<open>A load balancer configured with \<open>maxConcurrentRequests: 1\<close>.\<close>

definition limitOne :: PartialLoadBalancerConfig where
  "limitOne = noOverrides\<lparr>p_maxConcurrentRequests := Some 1\<rparr>"


text \<open>
  Seven requests for \<open>/api/health\<close> at time 4000: the first is admitted, six are
  queued. Five requests finish, each letting the next queued one in; at the fifth finish,
  at time 5000, the control tick sees five fast responses and raises the limit from 1 to
  11. One request is then running and one is left in the queue.
\<close>

definition raisedLimit :: "LbEvent list" where
  "raisedLimit =
     [Incoming ''/api/health'' 4000, Incoming ''/api/health'' 4000, Incoming ''/api/health'' 4000,
      Incoming ''/api/health'' 4000, Incoming ''/api/health'' 4000, Incoming ''/api/health'' 4000,
      Incoming ''/api/health'' 4000,
      ResponseSignal 0 ResSend 200 4001, ResponseSignal 1 ResSend 200 4002,
      ResponseSignal 2 ResSend 200 4003, ResponseSignal 3 ResSend 200 4004,
      ResponseSignal 4 ResSend 200 5000]"

section \<open>The connection pool (src/unnamed/part 003)\<close>

text \<open>
  \<open>EnhancedConnectionPool\<close> wraps the \<open>Pool\<close> of the library \<open>pg\<close>. What the
  library and the database do is an input of the model: whether \<open>pool.connect()\<close>
  resolves or rejects, whether each \<open>client.query(text)\<close> resolves or rejects, and
  whether the callback of a transaction returns a value or throws. An error is its
  message. The model records the calls made on the pool and on the client, in order.
\<close>

datatype PoolCall = Connect | Query string | Callback | Release

record 'a DbBehaviour =
  connectResult :: "string + unit"
  queryResult :: "string \<Rightarrow> string + unit"
  callbackResult :: "string + 'a"

record PoolState =
  totalErrors :: nat
  calls :: "PoolCall list"

definition called :: "PoolCall \<Rightarrow> PoolState \<Rightarrow> PoolState" where
  "called c st = st\<lparr>calls := calls st @ [c]\<rparr>"

text \<open>
  \<open>getConnection()\<close>: the client of \<open>pool.connect()\<close>, or its error counted and
  thrown again.
\<close>

definition getConnection :: "'a DbBehaviour \<Rightarrow> PoolState \<Rightarrow> (string + unit) \<times> PoolState" where
  "getConnection db st =
     (case connectResult db of
        Inr client \<Rightarrow> (Inr client, called Connect st)
      | Inl err \<Rightarrow> (Inl err, (called Connect st)\<lparr>totalErrors := totalErrors st + 1\<rparr>))"

text \<open>The \<open>try\<close> block of \<open>transaction\<close>: \<open>BEGIN\<close>, the callback, \<open>COMMIT\<close>.\<close>

definition transactionBody :: "'a DbBehaviour \<Rightarrow> PoolState \<Rightarrow> (string + 'a) \<times> PoolState" where
  "transactionBody db st =
     (let st1 = called (Query ''BEGIN'') st
      in case queryResult db ''BEGIN'' of
           Inl err \<Rightarrow> (Inl err, st1)
         | Inr _ \<Rightarrow>
             let st2 = called Callback st1
             in case callbackResult db of
                  Inl err \<Rightarrow> (Inl err, st2)
                | Inr result \<Rightarrow>
                    let st3 = called (Query ''COMMIT'') st2
                    in case queryResult db ''COMMIT'' of
                         Inl err \<Rightarrow> (Inl err, st3)
                       | Inr _ \<Rightarrow> (Inr result, st3))"

text \<open>
  The \<open>catch\<close> block for the error \<open>err\<close>: \<open>ROLLBACK\<close>, the error counted and
  thrown again. When the \<open>ROLLBACK\<close> query itself rejects, its error leaves the block
  at once.
\<close>

definition transactionCatch ::
  "string \<Rightarrow> 'a DbBehaviour \<Rightarrow> PoolState \<Rightarrow> (string + 'a) \<times> PoolState" where
  "transactionCatch err db st =
     (let st1 = called (Query ''ROLLBACK'') st
      in case queryResult db ''ROLLBACK'' of
           Inl rollbackErr \<Rightarrow> (Inl rollbackErr, st1)
         | Inr _ \<Rightarrow> (Inl err, st1\<lparr>totalErrors := totalErrors st1 + 1\<rparr>))"

text \<open>
  \<open>transaction(callback)\<close>: the value returned or the error thrown, and the state
  afterwards. The \<open>finally\<close> block releases the client on every path through
  \<open>try\<close> and \<open>catch\<close>.
\<close>

definition transaction :: "'a DbBehaviour \<Rightarrow> PoolState \<Rightarrow> (string + 'a) \<times> PoolState" where
  "transaction db st =
     (case getConnection db st of
        (Inl err, st1) \<Rightarrow> (Inl err, st1)
      | (Inr client, st1) \<Rightarrow>
          let (outcome, st3) =
                (case transactionBody db st1 of
                   (Inr result, st2) \<Rightarrow> (Inr result, st2)
                 | (Inl err, st2) \<Rightarrow> transactionCatch err db st2)
          in (outcome, called Release st3))"

definition newPool :: PoolState where
  "newPool = \<lparr> totalErrors = 0, calls = [] \<rparr>"

text \<open>
  A database on which the callback throws \<open>fn failed\<close> and the \<open>ROLLBACK\<close> query
  then rejects with \<open>connection lost\<close>; every other call succeeds.
\<close>

definition brokenRollback :: "unit DbBehaviour" where
  "brokenRollback =
     \<lparr> connectResult = Inr (),
       queryResult = (\<lambda>q. if q = ''ROLLBACK'' then Inl ''connection lost'' else Inr ()),
       callbackResult = Inl ''fn failed'' \<rparr>"

text \<open>A database on which the callback throws \<open>fn failed\<close> and every query succeeds.\<close>

definition failingCallback :: "unit DbBehaviour" where
  "failingCallback =
     \<lparr> connectResult = Inr (), queryResult = (\<lambda>q. Inr ()),
       callbackResult = Inl ''fn failed'' \<rparr>"

subsection \<open>Waiting for a connection\<close>

text \<open>
  The argument of the constructor, \<open>ConnectionPoolConfig\<close>, with the keys that bear on
  the wait for a connection (\<open>None\<close>: the key is absent), and \<open>this.config\<close>, the
  defaults of the constructor overridden by the argument. The constructor has a default
  for \<open>acquireTimeoutMillis\<close> and none for \<open>connectionTimeoutMillis\<close>.
\<close>

record ConnectionPoolConfig =
  c_max :: "int option"
  c_acquireTimeoutMillis :: "int option"
  c_connectionTimeoutMillis :: "int option"

record PoolOptions =
  optMax :: int
  optAcquireTimeoutMillis :: int
  optConnectionTimeoutMillis :: "int option"

definition mergedConfig :: "ConnectionPoolConfig \<Rightarrow> PoolOptions" where
  "mergedConfig c =
     \<lparr> optMax = orElse (c_max c) 25,
       optAcquireTimeoutMillis = orElse (c_acquireTimeoutMillis c) 10000,
       optConnectionTimeoutMillis = c_connectionTimeoutMillis c \<rparr>"

text \<open>The promise of one call of \<open>connect()\<close> or \<open>getConnection()\<close>.\<close>

datatype Promise = Pending | Fulfilled | Rejected string

text \<open>
  Modelled from the spec: the class \<open>Pool\<close> of the library \<open>pg\<close> is not part of the
  repository. It is modelled as the lease pool of the spec, a timed acquire on a pool of
  at most \<open>max\<close> clients, with the option names that the library documents:
  \<open>connect()\<close> hands out an idle client, or a new one while fewer than \<open>max\<close>
  exist; otherwise the call waits in a queue, first come first served, until a client
  is released or, when the option \<open>connectionTimeoutMillis\<close> is a number other than
  0, until that many milliseconds have passed, and then its promise is rejected with
  \<open>timeout exceeded when trying to connect\<close>. The library has no option
  \<open>acquireTimeoutMillis\<close>: it reads \<open>max\<close> and \<open>connectionTimeoutMillis\<close> of
  the object it is given. A new client is taken to connect at once. The \<open>n\<close>-th call
  of \<open>connect()\<close> has the promise number \<open>n\<close>; a waiting call is queued with its
  number and the time at which its timer fires, if it has a timer.
\<close>

record PgPool =
  pgMax :: int
  pgConnectionTimeoutMillis :: int
  pgIdle :: nat
  pgCheckedOut :: nat
  pgPendingQueue :: "(nat \<times> int option) list"
  pgPromises :: "Promise list"

text \<open>Modelled from the spec: \<open>new Pool(options)\<close>.\<close>

definition newPgPool :: "PoolOptions \<Rightarrow> PgPool" where
  "newPgPool options =
     \<lparr> pgMax = optMax options,
       pgConnectionTimeoutMillis = orElse (optConnectionTimeoutMillis options) 0,
       pgIdle = 0, pgCheckedOut = 0, pgPendingQueue = [], pgPromises = [] \<rparr>"

text \<open>Modelled from the spec: the timer of a waiting call is due at time \<open>now\<close>.\<close>

definition timerDue :: "int \<Rightarrow> nat \<times> int option \<Rightarrow> bool" where
  "timerDue now w = (case snd w of None \<Rightarrow> False | Some deadline \<Rightarrow> deadline \<le> now)"

fun rejectAll :: "nat list \<Rightarrow> Promise list \<Rightarrow> Promise list" where
  "rejectAll [] ps = ps"
| "rejectAll (n # ns) ps =
     rejectAll ns (ps[n := Rejected ''timeout exceeded when trying to connect''])"

text \<open>
  Modelled from the spec: the timers that are due at time \<open>now\<close> fire. The result is
  the numbers of the calls rejected, and the pool.
\<close>

definition pgTimers :: "int \<Rightarrow> PgPool \<Rightarrow> nat list \<times> PgPool" where
  "pgTimers now p =
     (let timedOut = map fst (filter (timerDue now) (pgPendingQueue p))
      in (timedOut,
          p\<lparr>pgPendingQueue := filter (\<lambda>w. \<not> timerDue now w) (pgPendingQueue p),
            pgPromises := rejectAll timedOut (pgPromises p)\<rparr>))"

text \<open>Modelled from the spec: \<open>pool.connect()\<close> at time \<open>now\<close>.\<close>

definition pgConnect :: "int \<Rightarrow> PgPool \<Rightarrow> PgPool" where
  "pgConnect now p =
     (if pgIdle p > 0
      then p\<lparr>pgIdle := pgIdle p - 1, pgCheckedOut := pgCheckedOut p + 1,
             pgPromises := pgPromises p @ [Fulfilled]\<rparr>
      else if int (pgIdle p + pgCheckedOut p) < pgMax p
      then p\<lparr>pgCheckedOut := pgCheckedOut p + 1, pgPromises := pgPromises p @ [Fulfilled]\<rparr>
      else
        let deadline = (if pgConnectionTimeoutMillis p = 0 then None
                        else Some (now + pgConnectionTimeoutMillis p))
        in p\<lparr>pgPendingQueue := pgPendingQueue p @ [(length (pgPromises p), deadline)],
              pgPromises := pgPromises p @ [Pending]\<rparr>)"

text \<open>
  Modelled from the spec: \<open>client.release()\<close> of a client that is checked out. The
  client goes to the call that has waited longest, or becomes idle.
\<close>

definition pgRelease :: "PgPool \<Rightarrow> PgPool" where
  "pgRelease p =
     (if pgCheckedOut p = 0 then p
      else case pgPendingQueue p of
             [] \<Rightarrow> p\<lparr>pgIdle := pgIdle p + 1, pgCheckedOut := pgCheckedOut p - 1\<rparr>
           | (n, deadline) # rest \<Rightarrow>
               p\<lparr>pgPendingQueue := rest, pgPromises := (pgPromises p)[n := Fulfilled]\<rparr>)"

text \<open>
  \<open>EnhancedConnectionPool\<close> over time: \<open>this.config\<close>, \<open>this.pool\<close> and
  \<open>this.metrics.totalErrors\<close>. The constructor passes \<open>this.config\<close> to
  \<open>new Pool\<close> and does nothing else with \<open>acquireTimeoutMillis\<close>.
\<close>

record EnhancedConnectionPool =
  poolConfig :: PoolOptions
  pool :: PgPool
  metricsTotalErrors :: nat

definition newEnhancedConnectionPool :: "ConnectionPoolConfig \<Rightarrow> EnhancedConnectionPool" where
  "newEnhancedConnectionPool c =
     \<lparr> poolConfig = mergedConfig c, pool = newPgPool (mergedConfig c),
       metricsTotalErrors = 0 \<rparr>"

text \<open>
  What happens to the pool: \<open>getConnection()\<close> is called; a client that is checked
  out is released; time passes. Each event has its time, and the timers due by then
  fire first. \<open>getConnection()\<close> awaits \<open>this.pool.connect()\<close> and sets no timer of
  its own, so its promise is the promise of \<open>connect()\<close>; when that is rejected, the
  \<open>catch\<close> block counts the error and throws it again.
\<close>

datatype PoolEvent = GetConnection int | ClientRelease int | TimePasses int

fun eventTime :: "PoolEvent \<Rightarrow> int" where
  "eventTime (GetConnection now) = now"
| "eventTime (ClientRelease now) = now"
| "eventTime (TimePasses now) = now"

definition poolStep :: "EnhancedConnectionPool \<Rightarrow> PoolEvent \<Rightarrow> EnhancedConnectionPool" where
  "poolStep s e =
     (let (timedOut, p1) = pgTimers (eventTime e) (pool s);
          s1 = s\<lparr>pool := p1, metricsTotalErrors := metricsTotalErrors s + length timedOut\<rparr>
      in case e of
           GetConnection now \<Rightarrow> s1\<lparr>pool := pgConnect now p1\<rparr>
         | ClientRelease now \<Rightarrow> s1\<lparr>pool := pgRelease p1\<rparr>
         | TimePasses now \<Rightarrow> s1)"

definition poolRun :: "PoolEvent list \<Rightarrow> EnhancedConnectionPool \<Rightarrow> EnhancedConnectionPool" where
  "poolRun evs s = foldl poolStep s evs"

text \<open>The promise of the \<open>n\<close>-th call of \<open>getConnection()\<close>.\<close>

definition connectionPromise :: "nat \<Rightarrow> EnhancedConnectionPool \<Rightarrow> Promise" where
  "connectionPromise n s = pgPromises (pool s) ! n"

text \<open>
  A pool of at most two connections with an acquire timeout of 100 milliseconds, on
  which \<open>getConnection()\<close> is called three times at time 0.
\<close>

definition smallPool :: EnhancedConnectionPool where
  "smallPool =
     newEnhancedConnectionPool
       \<lparr> c_max = Some 2, c_acquireTimeoutMillis = Some 100,
         c_connectionTimeoutMillis = None \<rparr>"

definition threeAcquires :: EnhancedConnectionPool where
  "threeAcquires = poolRun [GetConnection 0, GetConnection 0, GetConnection 0] smallPool"

text \<open>
  The same with the timeouts of the pool of the module: an acquire timeout of 15000
  milliseconds and \<open>connectionTimeoutMillis\<close> 10000.
\<close>

definition modulePool :: EnhancedConnectionPool where
  "modulePool =
     newEnhancedConnectionPool
       \<lparr> c_max = Some 2, c_acquireTimeoutMillis = Some 15000,
         c_connectionTimeoutMillis = Some 10000 \<rparr>"

section \<open>Properties of the job queue\<close>

lemmas jobQueue_defs =
  addJob_def noOptions_def newJobQueue_def defaultQueueConfig_def registerHandler_def
  processJobs_def duePending_def processJob_start_def updateJob_def handlerSettled_def
  orDefault_def truthyKey_def findExisting_def queueWithHandler_def

subsection \<open>Zero-valued options of addJob\<close>

text \<open>
  C10, counterexample. The claim ends: a job that is never retried cannot be requested
  through these options. It can, with \<open>maxRetries: 1\<close>: the job of \<open>oneAttemptQueue\<close>
  has \<open>maxRetries = 1\<close>; after the first failure of its handler it is \<open>failed\<close>
  with \<open>retryCount = 1\<close>, its handler has been called once, and a later tick changes
  nothing (it is not run again).
\<close>

theorem C10_never_retried_counterexample:
  "map (\<lambda>(k, j). (job_maxRetries j, job_retryCount j, job_status j)) (jobs oneAttemptQueue)
     = [(1, 1, failed)]
   \<and> invoked oneAttemptQueue = [''j1'']
   \<and> processJobs 100000000 oneAttemptQueue = oneAttemptQueue"
  by (simp add: oneAttemptQueue_def jobQueue_defs Let_def)

text \<open>
  C10, as amended. Whenever \<open>addJob\<close> creates a job (no idempotency key, or a key that
  matches no stored job), an explicit \<open>priority: 0\<close> gives the job priority 5 and an
  explicit \<open>maxRetries: 0\<close> gives it the queue's configured default; so the job
  created has \<open>maxRetries = 0\<close> only when the configured default is 0.
\<close>

theorem C10_addJob_zero_options:
  assumes "\<not> truthyKey (opt_idempotencyKey opts)
           \<or> findExisting (jobs q) (opt_idempotencyKey opts) = None"
  shows "\<exists>job. addJob jobId now ty dat opts q
                  = (jobId, q\<lparr>jobs := AList.update jobId job (jobs q)\<rparr>)
           \<and> getJob jobId (snd (addJob jobId now ty dat opts q)) = Some job
           \<and> (opt_priority opts = Some 0 \<longrightarrow> job_priority job = 5)
           \<and> (opt_maxRetries opts = Some 0 \<longrightarrow> job_maxRetries job = maxRetries (config q))
           \<and> (job_maxRetries job = 0 \<longrightarrow> maxRetries (config q) = 0)"
  using assms
  by (auto simp: addJob_def orDefault_def getJob_def update_Some_unfold Let_def
           split: option.splits)

theorem C10_addJob_zero_options_witness:
  "\<exists>job. getJob ''j1'' (snd (addJob ''j1'' 0 ''t'' ()
              (noOptions\<lparr>opt_priority := Some 0, opt_maxRetries := Some 0\<rparr>) queueWithHandler))
            = Some job
         \<and> job_priority job = 5 \<and> job_maxRetries job = 3"
  using C10_addJob_zero_options
          [of "noOptions\<lparr>opt_priority := Some 0, opt_maxRetries := Some 0\<rparr>"
              queueWithHandler "''j1''" 0 "''t''" "()"]
  by (simp add: jobQueue_defs)

subsection \<open>Idempotency keys\<close>

lemma find_Some_holds: "List.find P xs = Some x \<Longrightarrow> x \<in> set xs \<and> P x"
  by (auto simp: find_Some_iff)

text \<open>
  C4, counterexample. The job \<open>j1\<close> with key \<open>k\<close> has reached \<open>completed\<close>; a
  further \<open>addJob\<close> with key \<open>k\<close> and the fresh id \<open>j2\<close> returns \<open>j1\<close> and
  leaves the queue as it is: no new job is created. And the empty string is a key that
  never deduplicates: two calls with key \<open>''\<close> create two jobs.
\<close>

theorem C4_completed_key_counterexample:
  "map (\<lambda>(k, j). (k, job_status j, job_idempotencyKey j)) (jobs completedQueue)
     = [(''j1'', completed, Some ''k'')]
   \<and> addJob ''j2'' 20 ''t'' () (noOptions\<lparr>opt_idempotencyKey := Some ''k''\<rparr>) completedQueue
       = (''j1'', completedQueue)
   \<and> map fst (jobs (snd (addJob ''j2'' 5 ''t'' () (noOptions\<lparr>opt_idempotencyKey := Some ''''\<rparr>)
        (snd (addJob ''j1'' 0 ''t'' () (noOptions\<lparr>opt_idempotencyKey := Some ''''\<rparr>)
               queueWithHandler)))))
       = [''j1'', ''j2'']"
  by (simp add: completedQueue_def pendingQueue_def jobQueue_defs Let_def)

text \<open>
  C4, as amended. For every non-empty idempotency key \<open>k\<close>: when some stored job has
  key \<open>k\<close> and a status other than \<open>cancelled\<close> (pending, running, completed or
  failed), \<open>addJob\<close> with key \<open>k\<close> returns the id of such a stored job and leaves
  the queue unchanged; when every stored job with key \<open>k\<close> is cancelled (or there is
  none), it returns the fresh id and stores a new pending job under it.
\<close>

theorem C4_addJob_idempotencyKey:
  assumes "opt_idempotencyKey opts = Some k" and "k \<noteq> []"
  shows "((\<exists>i j. (i, j) \<in> set (jobs q) \<and> job_idempotencyKey j = Some k
                  \<and> job_status j \<noteq> cancelled) \<longrightarrow>
            (\<exists>i' j'. (i', j') \<in> set (jobs q) \<and> job_idempotencyKey j' = Some k
                  \<and> job_status j' \<noteq> cancelled
                  \<and> addJob jobId now ty dat opts q = (job_id j', q)))
       \<and> ((\<forall>i j. (i, j) \<in> set (jobs q) \<and> job_idempotencyKey j = Some k
                  \<longrightarrow> job_status j = cancelled) \<longrightarrow>
            fst (addJob jobId now ty dat opts q) = jobId
            \<and> (\<exists>job. getJob jobId (snd (addJob jobId now ty dat opts q)) = Some job
                  \<and> job_id job = jobId \<and> job_status job = pending
                  \<and> job_idempotencyKey job = Some k))"
proof (intro conjI impI)
  assume "\<exists>i j. (i, j) \<in> set (jobs q) \<and> job_idempotencyKey j = Some k \<and> job_status j \<noteq> cancelled"
  then obtain i j where ij: "(i, j) \<in> set (jobs q)" "job_idempotencyKey j = Some k"
      "job_status j \<noteq> cancelled"
    by blast
  then have "j \<in> set (map snd (jobs q))" by force
  with ij have "findExisting (jobs q) (Some k) \<noteq> None"
    by (auto simp: findExisting_def find_None_iff)
  then obtain j' where f: "findExisting (jobs q) (Some k) = Some j'" by blast
  then have "j' \<in> set (map snd (jobs q)) \<and> job_idempotencyKey j' = Some k
               \<and> job_status j' \<noteq> cancelled"
    unfolding findExisting_def by (rule find_Some_holds)
  moreover have "addJob jobId now ty dat opts q = (job_id j', q)"
    using assms f by (simp add: addJob_def truthyKey_def)
  ultimately show "\<exists>i' j'. (i', j') \<in> set (jobs q) \<and> job_idempotencyKey j' = Some k
                     \<and> job_status j' \<noteq> cancelled
                     \<and> addJob jobId now ty dat opts q = (job_id j', q)"
    by fastforce
next
  assume "\<forall>i j. (i, j) \<in> set (jobs q) \<and> job_idempotencyKey j = Some k \<longrightarrow> job_status j = cancelled"
  then have "findExisting (jobs q) (Some k) = None"
    by (auto simp: findExisting_def find_None_iff)
  then show "fst (addJob jobId now ty dat opts q) = jobId"
    using assms by (simp add: addJob_def truthyKey_def Let_def)
next
  assume "\<forall>i j. (i, j) \<in> set (jobs q) \<and> job_idempotencyKey j = Some k \<longrightarrow> job_status j = cancelled"
  then have "findExisting (jobs q) (Some k) = None"
    by (auto simp: findExisting_def find_None_iff)
  then show "\<exists>job. getJob jobId (snd (addJob jobId now ty dat opts q)) = Some job
                  \<and> job_id job = jobId \<and> job_status job = pending
                  \<and> job_idempotencyKey job = Some k"
    using assms by (simp add: addJob_def truthyKey_def Let_def getJob_def update_Some_unfold)
qed

text \<open>
  The theorem at the pending job of \<open>pendingQueue\<close> (a second call returns \<open>j1\<close>)
  and at the queue without jobs (the first call returns the fresh id).
\<close>

theorem C4_addJob_idempotencyKey_witness:
  "addJob ''j2'' 5 ''t'' () (noOptions\<lparr>opt_idempotencyKey := Some ''k''\<rparr>) pendingQueue
     = (''j1'', pendingQueue)
   \<and> fst (addJob ''j1'' 0 ''t'' () (noOptions\<lparr>opt_idempotencyKey := Some ''k''\<rparr>)
            queueWithHandler) = ''j1''"
  using C4_addJob_idempotencyKey
          [of "noOptions\<lparr>opt_idempotencyKey := Some ''k''\<rparr>" "''k''" pendingQueue
              "''j2''" 5 "''t''" "()"]
        C4_addJob_idempotencyKey
          [of "noOptions\<lparr>opt_idempotencyKey := Some ''k''\<rparr>" "''k''" queueWithHandler
              "''j1''" 0 "''t''" "()"]
  by (simp add: pendingQueue_def jobQueue_defs)

subsection \<open>Retries of a failing job\<close>

text \<open>
  C3, counterexample. With \<open>maxRetries = 3\<close> and a handler that fails every time,
  the handler is called three times in all, the first attempt and two retries, not three
  retries: after the first and the second failure the job is pending, after the third it
  is failed, and further ticks do not run it.
\<close>

theorem C3_retry_count_counterexample:
  "map (\<lambda>(k, j). job_maxRetries j) (jobs failingQueue) = [3]
   \<and> map (\<lambda>n. map (\<lambda>(k, j). (job_status j, job_retryCount j))
                   (jobs (failRounds (take n fiveRounds) ''j1'' failingQueue))) [1, 2, 3, 5]
       = [[(pending, 1)], [(pending, 2)], [(failed, 3)], [(failed, 3)]]
   \<and> invoked (failRounds fiveRounds ''j1'' failingQueue) = [''j1'', ''j1'', ''j1'']"
  by (simp add: failingQueue_def fiveRounds_def jobQueue_defs getJob_def Let_def)

subsection \<open>Executions of a job\<close>

lemma map_of_updateJob:
  "map_of (jobs (updateJob i f q)) k
     = (if k = i then map_option f (map_of (jobs q) i) else map_of (jobs q) k)"
proof -
  have "map_of (map (\<lambda>(k, j). if k = i then (k, f j) else (k, j)) al) k
          = (if k = i then map_option f (map_of al i) else map_of al k)" for al
    by (induction al) auto
  then show ?thesis by (simp add: updateJob_def)
qed

lemma keys_updateJob: "map fst (jobs (updateJob i f q)) = map fst (jobs q)"
  by (simp add: updateJob_def case_prod_unfold comp_def)

lemma updateJob_frame [simp]:
  "running_ids (updateJob i f q) = running_ids q"
  "handlers (updateJob i f q) = handlers q"
  "invoked (updateJob i f q) = invoked q"
  "config (updateJob i f q) = config q"
  by (simp_all add: updateJob_def)

lemma jobInv_frame:
  assumes "running_ids q' = running_ids q" "handlers q' = handlers q" "invoked q' = invoked q"
  shows "jobInv q' k j = jobInv q k j"
  using assms by (cases "job_status j") (simp_all add: jobInv_def executions_def)

lemma jqInv_mono: "jqInv U q \<Longrightarrow> U \<subseteq> V \<Longrightarrow> jqInv V q"
  unfolding jqInv_def by blast

lemma jqInv_new: "jqInv {} (newJobQueue cfg)"
  by (simp add: jqInv_def newJobQueue_def)

lemma jqInv_registerHandler:
  assumes "jqInv U q"
  shows "jqInv U (registerHandler ty q)"
proof -
  have "jobInv (registerHandler ty q) k j" if "jobInv q k j" for k j
    using that
    by (cases "job_status j") (auto simp: jobInv_def executions_def registerHandler_def)
  moreover have "jobs (registerHandler ty q) = jobs q" "invoked (registerHandler ty q) = invoked q"
    "running_ids (registerHandler ty q) = running_ids q"
    by (simp_all add: registerHandler_def)
  ultimately show ?thesis
    using assms unfolding jqInv_def by auto
qed

lemma jqInv_addJob:
  assumes "jqInv U q" "jobId \<notin> U"
  shows "jqInv (insert jobId U) (snd (addJob jobId now ty dat opts q))"
proof -
  let ?job = "\<lparr> job_id = jobId, job_type = ty, job_data = dat,
                  job_priority = orDefault (opt_priority opts) 5,
                  job_maxRetries = orDefault (opt_maxRetries opts) (maxRetries (config q)),
                  job_retryCount = 0,
                  job_createdAt = now,
                  job_nextRunAt = now + orDefault (opt_delayMs opts) 0,
                  job_status = pending,
                  job_result = None, job_error = None,
                  job_idempotencyKey = opt_idempotencyKey opts \<rparr>"
  let ?q = "q\<lparr>jobs := AList.update jobId ?job (jobs q)\<rparr>"
  have cases: "snd (addJob jobId now ty dat opts q) = q \<or> snd (addJob jobId now ty dat opts q) = ?q"
    by (simp add: addJob_def Let_def split: option.splits)
  have fresh: "jobId \<notin> fst ` set (jobs q)" "jobId \<notin> set (invoked q)" "jobId \<notin> running_ids q"
    using assms unfolding jqInv_def by blast+
  have new: "jobInv ?q jobId ?job"
    using fresh by (simp add: jobInv_def executions_def)
  have old: "jobInv ?q k j" if "map_of (jobs q) k = Some j" for k j
  proof -
    have "jobInv q k j" using assms(1) that unfolding jqInv_def by blast
    then show ?thesis by (simp add: jobInv_frame[of ?q q])
  qed
  have a: "jqInv (insert jobId U) ?q"
    unfolding jqInv_def
  proof (intro conjI allI impI)
    show "distinct (map fst (jobs ?q))"
      using assms(1) by (simp add: jqInv_def distinct_update)
    show "fst ` set (jobs ?q) \<subseteq> insert jobId U"
      using assms(1) by (auto simp: jqInv_def dom_update)
    show "set (invoked ?q) \<subseteq> insert jobId U"
      using assms(1) by (auto simp: jqInv_def)
    show "running_ids ?q \<subseteq> fst ` set (jobs ?q)"
      using assms(1) by (auto simp: jqInv_def dom_update)
  next
    fix k j assume "map_of (jobs ?q) k = Some j"
    then have "(k = jobId \<and> j = ?job) \<or> (k \<noteq> jobId \<and> map_of (jobs q) k = Some j)"
      by (auto simp: update_conv' split: if_splits)
    then show "jobInv ?q k j" using new old by blast
  qed
  have b: "jqInv (insert jobId U) q"
    using assms(1) by (rule jqInv_mono) blast
  from cases show ?thesis
  proof
    assume "snd (addJob jobId now ty dat opts q) = q"
    then show ?thesis using b by simp
  next
    assume "snd (addJob jobId now ty dat opts q) = ?q"
    then show ?thesis using a by simp
  qed
qed

lemma jqInv_cancelJob:
  assumes "jqInv U q"
  shows "jqInv U (snd (cancelJob jobId q))"
proof (cases "map_of (jobs q) jobId")
  case None
  then show ?thesis using assms by (simp add: cancelJob_def)
next
  case (Some job)
  show ?thesis
  proof (cases "job_status job = pending")
    case False
    then show ?thesis using assms Some by (simp add: cancelJob_def)
  next
    case True
    let ?q = "q\<lparr>jobs := AList.update jobId (job\<lparr>job_status := cancelled\<rparr>) (jobs q)\<rparr>"
    have eq: "snd (cancelJob jobId q) = ?q"
      using Some True by (simp add: cancelJob_def)
    have inv: "jobInv q jobId job" using assms Some unfolding jqInv_def by blast
    have key: "jobId \<in> fst ` set (jobs q)"
      using Some by (metis domI dom_map_of_conv_image_fst)
    have "jqInv U ?q"
      unfolding jqInv_def
    proof (intro conjI allI impI)
      show "distinct (map fst (jobs ?q))"
        using assms(1) by (simp add: jqInv_def distinct_update)
      show "fst ` set (jobs ?q) \<subseteq> U"
        using assms(1) key by (auto simp: jqInv_def dom_update)
      show "set (invoked ?q) \<subseteq> U"
        using assms(1) by (auto simp: jqInv_def)
      show "running_ids ?q \<subseteq> fst ` set (jobs ?q)"
        using assms(1) by (auto simp: jqInv_def dom_update)
    next
      fix k j assume "map_of (jobs ?q) k = Some j"
      then consider "k = jobId" "j = job\<lparr>job_status := cancelled\<rparr>"
        | "k \<noteq> jobId" "map_of (jobs q) k = Some j"
        by (auto simp: update_conv' split: if_splits)
      then show "jobInv ?q k j"
      proof cases
        case 1
        then show ?thesis using inv True by (simp add: jobInv_def executions_def)
      next
        case 2
        then have "jobInv q k j" using assms unfolding jqInv_def by blast
        then show ?thesis by (simp add: jobInv_frame[of ?q q])
      qed
    qed
    then show ?thesis using eq by simp
  qed
qed

lemma jqInv_cleanup:
  assumes "jqInv U q"
  shows "jqInv U (cleanup now q)"
proof -
  define P :: "string \<times> ('a, 'b) Job \<Rightarrow> bool" where
    "P = (\<lambda>(jobId, job). \<not> ((job_status job = completed \<or> job_status job = failed)
              \<and> job_createdAt job < now - 24 * 60 * 60 * 1000))"
  define q' where "q' = q\<lparr>jobs := filter P (jobs q)\<rparr>"
  have eq: "cleanup now q = q'" by (simp add: cleanup_def Let_def q'_def P_def)
  have frame: "running_ids q' = running_ids q" "handlers q' = handlers q"
    "invoked q' = invoked q" "jobs q' = filter P (jobs q)"
    by (simp_all add: q'_def)
  have d: "distinct (map fst (jobs q))" using assms by (simp add: jqInv_def)
  have sub: "map_of (jobs q) k = Some j" if "map_of (filter P (jobs q)) k = Some j" for k j
  proof -
    have "(k, j) \<in> set (filter P (jobs q))" using that by (rule map_of_SomeD)
    then have "(k, j) \<in> set (jobs q)" by simp
    then show ?thesis using d by simp
  qed
  have run: "k \<in> fst ` set (filter P (jobs q))" if k: "k \<in> running_ids q" for k
  proof -
    have "k \<in> fst ` set (jobs q)" using k assms unfolding jqInv_def by blast
    then obtain j where kj: "(k, j) \<in> set (jobs q)" by force
    then have "map_of (jobs q) k = Some j" using d by simp
    then have "jobInv q k j" using assms unfolding jqInv_def by blast
    then have "job_status j = running" using k by (simp add: jobInv_def)
    then have "P (k, j)" by (simp add: P_def)
    then have "(k, j) \<in> set (filter P (jobs q))" using kj by simp
    then show ?thesis by (rule image_eqI[rotated]) simp
  qed
  have "jqInv U q'"
    unfolding jqInv_def frame
  proof (intro conjI allI impI)
    show "distinct (map fst (filter P (jobs q)))" using d by (rule distinct_map_filter)
    show "fst ` set (filter P (jobs q)) \<subseteq> U" using assms unfolding jqInv_def by auto
    show "set (invoked q) \<subseteq> U" using assms unfolding jqInv_def by blast
    show "running_ids q \<subseteq> fst ` set (filter P (jobs q))" using run by blast
  next
    fix k j assume "map_of (filter P (jobs q)) k = Some j"
    then have "map_of (jobs q) k = Some j" by (rule sub)
    then have "jobInv q k j" using assms unfolding jqInv_def by blast
    then show "jobInv q' k j" by (simp add: jobInv_frame[of q' q] frame)
  qed
  then show ?thesis using eq by simp
qed

lemma stored_job:
  assumes "jqInv U q" "k \<in> running_ids q"
  shows "\<exists>j. map_of (jobs q) k = Some j \<and> job_status j = running \<and> jobInv q k j"
proof -
  have d: "distinct (map fst (jobs q))" using assms by (simp add: jqInv_def)
  have "k \<in> fst ` set (jobs q)" using assms unfolding jqInv_def by blast
  then obtain j where "(k, j) \<in> set (jobs q)" by force
  then have m: "map_of (jobs q) k = Some j" using d by simp
  then have inv: "jobInv q k j" using assms unfolding jqInv_def by blast
  then have "job_status j = running" using assms(2) by (simp add: jobInv_def)
  then show ?thesis using m inv by blast
qed

text \<open>The job after its handler has returned \<open>r\<close> at time \<open>now\<close>.\<close>

lemma handlerSettled_eq:
  "handlerSettled i st outcome now q
     = (updateJob i (\<lambda>j. case outcome of
                          Inr r \<Rightarrow> j\<lparr>job_status := completed,
                                     job_result := Some \<lparr>handlerResult = r,
                                         processingTime = now - st, completedAt = now\<rparr>\<rparr>
                        | Inl msg \<Rightarrow> failed_once now msg (retryDelayMs (config q)) j) q)
         \<lparr>running_ids := running_ids q - {i}\<rparr>"
  by (cases outcome)
     (simp_all add: handlerSettled_def failed_once_def Let_def updateJob_def cong: if_cong)

lemma jobInv_settled:
  assumes "jobInv q i j" "job_status j = running"
    and "running_ids q' = running_ids q - {i}" "handlers q' = handlers q"
    and "invoked q' = invoked q"
  shows "jobInv q' i (case outcome of
                          Inr r \<Rightarrow> j\<lparr>job_status := completed, job_result := res r\<rparr>
                        | Inl msg \<Rightarrow> failed_once now msg delay j)"
  using assms
  by (cases outcome) (auto simp: jobInv_def executions_def failed_once_def)

lemma jobInv_other:
  assumes "jobInv q k j" "k \<noteq> i"
    and "running_ids q' = running_ids q - {i} \<or> running_ids q' = insert i (running_ids q)
         \<or> running_ids q' = running_ids q"
    and "handlers q' = handlers q"
    and "invoked q' = invoked q \<or> invoked q' = invoked q @ [i]"
  shows "jobInv q' k j"
  using assms
  by (cases "job_status j") (auto simp: jobInv_def executions_def)

lemma jqInv_handlerSettled:
  assumes "jqInv U q" "i \<in> running_ids q"
  shows "jqInv U (handlerSettled i st outcome now q)"
proof -
  define f :: "('a, 'b) Job \<Rightarrow> ('a, 'b) Job" where
    "f = (\<lambda>j. case outcome of
                 Inr r \<Rightarrow> j\<lparr>job_status := completed,
                            job_result := Some \<lparr>handlerResult = r,
                                processingTime = now - st, completedAt = now\<rparr>\<rparr>
               | Inl msg \<Rightarrow> failed_once now msg (retryDelayMs (config q)) j)"
  define q' where "q' = (updateJob i f q)\<lparr>running_ids := running_ids q - {i}\<rparr>"
  have eq: "handlerSettled i st outcome now q = q'"
    by (simp add: handlerSettled_eq q'_def f_def)
  have frame: "running_ids q' = running_ids q - {i}" "handlers q' = handlers q"
    "invoked q' = invoked q" "map fst (jobs q') = map fst (jobs q)"
    by (simp_all add: q'_def keys_updateJob)
  have m: "map_of (jobs q') k = (if k = i then map_option f (map_of (jobs q) i)
                                 else map_of (jobs q) k)" for k
    by (simp add: q'_def map_of_updateJob)
  from stored_job[OF assms] obtain ji where
    ji: "map_of (jobs q) i = Some ji" "job_status ji = running" "jobInv q i ji"
    by blast
  have set_eq: "fst ` set (jobs q') = fst ` set (jobs q)"
    using frame(4) by (metis set_map)
  have "jqInv U q'"
    unfolding jqInv_def
  proof (intro conjI allI impI)
    show "distinct (map fst (jobs q'))" using assms(1) by (simp add: frame jqInv_def)
    show "fst ` set (jobs q') \<subseteq> U" using assms(1) by (simp add: set_eq jqInv_def)
    show "set (invoked q') \<subseteq> U" using assms(1) by (simp add: frame jqInv_def)
    show "running_ids q' \<subseteq> fst ` set (jobs q')"
      using assms(1) unfolding set_eq frame jqInv_def by blast
  next
    fix k j assume kj: "map_of (jobs q') k = Some j"
    show "jobInv q' k j"
    proof (cases "k = i")
      case True
      then have "j = f ji" using kj ji m by simp
      then show ?thesis
        unfolding f_def True
        using jobInv_settled[OF ji(3) ji(2) frame(1,2,3)] by simp
    next
      case False
      then have "map_of (jobs q) k = Some j" using kj m by simp
      then have "jobInv q k j" using assms(1) unfolding jqInv_def by blast
      then show ?thesis
        using False frame by (rule_tac jobInv_other[of q k j i]) simp_all
    qed
  qed
  then show ?thesis using eq by simp
qed

lemma processJob_start_spec:
  assumes "map_of (jobs q) i = Some job"
  defines "q' \<equiv> processJob_start i q"
  shows "(maxConcurrency (config q) \<le> int (card (running_ids q)) \<and> q' = q)
       \<or> (int (card (running_ids q)) < maxConcurrency (config q)
           \<and> job_type job \<notin> handlers q
           \<and> map_of (jobs q')
               = (map_of (jobs q))(i \<mapsto> job\<lparr>job_status := failed,
                      job_error := Some (NoHandlerRegistered (job_type job))\<rparr>)
           \<and> running_ids q' = running_ids q - {i} \<and> invoked q' = invoked q
           \<and> map fst (jobs q') = map fst (jobs q) \<and> handlers q' = handlers q
           \<and> config q' = config q)
       \<or> (int (card (running_ids q)) < maxConcurrency (config q)
           \<and> job_type job \<in> handlers q
           \<and> map_of (jobs q') = (map_of (jobs q))(i \<mapsto> job\<lparr>job_status := running\<rparr>)
           \<and> running_ids q' = insert i (running_ids q) \<and> invoked q' = invoked q @ [i]
           \<and> map fst (jobs q') = map fst (jobs q) \<and> handlers q' = handlers q
           \<and> config q' = config q)"
proof -
  consider "maxConcurrency (config q) \<le> int (card (running_ids q))"
    | "int (card (running_ids q)) < maxConcurrency (config q)" "job_type job \<notin> handlers q"
    | "int (card (running_ids q)) < maxConcurrency (config q)" "job_type job \<in> handlers q"
    by linarith
  then show ?thesis
  proof cases
    case 1
    then show ?thesis using assms by (simp add: processJob_start_def)
  next
    case 2
    have "map_of (jobs q') k
            = ((map_of (jobs q))(i \<mapsto> job\<lparr>job_status := failed,
                      job_error := Some (NoHandlerRegistered (job_type job))\<rparr>)) k" for k
      using 2 assms by (simp add: processJob_start_def Let_def map_of_updateJob)
    then have "map_of (jobs q')
            = (map_of (jobs q))(i \<mapsto> job\<lparr>job_status := failed,
                      job_error := Some (NoHandlerRegistered (job_type job))\<rparr>)"
      by blast
    moreover have "running_ids q' = running_ids q - {i}" "invoked q' = invoked q"
       "map fst (jobs q') = map fst (jobs q)" "handlers q' = handlers q" "config q' = config q"
      using 2 assms by (simp_all add: processJob_start_def Let_def keys_updateJob)
    ultimately show ?thesis using 2 by blast
  next
    case 3
    have "map_of (jobs q') k = ((map_of (jobs q))(i \<mapsto> job\<lparr>job_status := running\<rparr>)) k" for k
      using 3 assms by (simp add: processJob_start_def Let_def map_of_updateJob)
    then have "map_of (jobs q') = (map_of (jobs q))(i \<mapsto> job\<lparr>job_status := running\<rparr>)"
      by blast
    moreover have "running_ids q' = insert i (running_ids q)" "invoked q' = invoked q @ [i]"
       "map fst (jobs q') = map fst (jobs q)" "handlers q' = handlers q" "config q' = config q"
      using 3 assms by (simp_all add: processJob_start_def Let_def keys_updateJob)
    ultimately show ?thesis using 3 by blast
  qed
qed

lemma jqInv_update:
  assumes "jqInv U q"
    and m: "map_of (jobs q') = (map_of (jobs q))(i \<mapsto> j')"
    and keys: "map fst (jobs q') = map fst (jobs q)"
    and h: "handlers q' = handlers q"
    and r: "running_ids q' = running_ids q - {i} \<or> running_ids q' = insert i (running_ids q)
            \<or> running_ids q' = running_ids q"
    and v: "invoked q' = invoked q \<or> invoked q' = invoked q @ [i]"
    and stored: "i \<in> fst ` set (jobs q)"
    and new: "jobInv q' i j'"
  shows "jqInv U q'"
proof -
  have set_eq: "fst ` set (jobs q') = fst ` set (jobs q)"
    using keys by (metis set_map)
  have iU: "i \<in> U" using assms(1) stored unfolding jqInv_def by blast
  show ?thesis
    unfolding jqInv_def
  proof (intro conjI allI impI)
    show "distinct (map fst (jobs q'))" using assms(1) by (simp add: keys jqInv_def)
    show "fst ` set (jobs q') \<subseteq> U" using assms(1) by (simp add: set_eq jqInv_def)
    show "set (invoked q') \<subseteq> U" using assms(1) v iU unfolding jqInv_def by auto
    show "running_ids q' \<subseteq> fst ` set (jobs q')"
      using assms(1) r stored unfolding set_eq jqInv_def by auto
  next
    fix k j assume kj: "map_of (jobs q') k = Some j"
    show "jobInv q' k j"
    proof (cases "k = i")
      case True
      then show ?thesis using kj m new by simp
    next
      case False
      then have "map_of (jobs q) k = Some j" using kj m by simp
      then have "jobInv q k j" using assms(1) unfolding jqInv_def by blast
      then show ?thesis using False r h v by (rule jobInv_other)
    qed
  qed
qed

lemma jqInv_processJob_start:
  assumes "jqInv U q" "map_of (jobs q) i = Some job" "job_status job = pending"
  shows "jqInv U (processJob_start i q)"
proof -
  have inv: "jobInv q i job" using assms unfolding jqInv_def by blast
  have stored: "i \<in> fst ` set (jobs q)"
    using assms(2) by (metis domI dom_map_of_conv_image_fst)
  from processJob_start_spec[OF assms(2)] show ?thesis
  proof (elim disjE conjE)
    assume "processJob_start i q = q"
    then show ?thesis using assms(1) by simp
  next
    assume a: "job_type job \<notin> handlers q"
      "map_of (jobs (processJob_start i q))
         = (map_of (jobs q))(i \<mapsto> job\<lparr>job_status := failed,
                job_error := Some (NoHandlerRegistered (job_type job))\<rparr>)"
      "running_ids (processJob_start i q) = running_ids q - {i}"
      "invoked (processJob_start i q) = invoked q"
      "map fst (jobs (processJob_start i q)) = map fst (jobs q)"
      "handlers (processJob_start i q) = handlers q"
    have "jobInv (processJob_start i q) i
            (job\<lparr>job_status := failed, job_error := Some (NoHandlerRegistered (job_type job))\<rparr>)"
      using inv assms(3) a by (auto simp: jobInv_def executions_def)
    then show ?thesis
      using jqInv_update[OF assms(1) a(2) a(5) a(6) _ _ stored] a(3) a(4) by blast
  next
    assume a: "job_type job \<in> handlers q"
      "map_of (jobs (processJob_start i q)) = (map_of (jobs q))(i \<mapsto> job\<lparr>job_status := running\<rparr>)"
      "running_ids (processJob_start i q) = insert i (running_ids q)"
      "invoked (processJob_start i q) = invoked q @ [i]"
      "map fst (jobs (processJob_start i q)) = map fst (jobs q)"
      "handlers (processJob_start i q) = handlers q"
    have "jobInv (processJob_start i q) i (job\<lparr>job_status := running\<rparr>)"
      using inv assms(3) a by (auto simp: jobInv_def executions_def)
    then show ?thesis
      using jqInv_update[OF assms(1) a(2) a(5) a(6) _ _ stored] a(3) a(4) by blast
  qed
qed

lemma processJob_start_other:
  assumes "k \<noteq> i"
  shows "map_of (jobs (processJob_start i q)) k = map_of (jobs q) k"
    and "count_list (invoked (processJob_start i q)) k = count_list (invoked q) k"
  using assms
  by (auto simp: processJob_start_def Let_def map_of_updateJob split: option.splits)

lemma processJob_start_frame:
  "config (processJob_start i q) = config q"
  "handlers (processJob_start i q) = handlers q"
  "map fst (jobs (processJob_start i q)) = map fst (jobs q)"
  "running_ids (processJob_start i q) \<subseteq> insert i (running_ids q)"
  by (auto simp: processJob_start_def Let_def keys_updateJob split: option.splits)

lemma jqInv_startAll:
  assumes "jqInv U q" "distinct ids"
    and "\<forall>i \<in> set ids. \<exists>j. map_of (jobs q) i = Some j \<and> job_status j = pending"
  shows "jqInv U (startAll ids q)"
  using assms
proof (induction ids arbitrary: q)
  case Nil
  then show ?case by simp
next
  case (Cons i ids)
  from Cons.prems(3) obtain job where job: "map_of (jobs q) i = Some job" "job_status job = pending"
    by auto
  have rest: "\<forall>k \<in> set ids. \<exists>j. map_of (jobs q) k = Some j \<and> job_status j = pending"
    using Cons.prems(3) by simp
  have d: "distinct ids" "i \<notin> set ids" using Cons.prems(2) by simp_all
  have inv1: "jqInv U (processJob_start i q)"
    using Cons.prems(1) job by (rule jqInv_processJob_start)
  have rest1: "\<forall>k \<in> set ids. \<exists>j. map_of (jobs (processJob_start i q)) k = Some j
                  \<and> job_status j = pending"
  proof
    fix k assume k: "k \<in> set ids"
    then have "k \<noteq> i" using d by blast
    then show "\<exists>j. map_of (jobs (processJob_start i q)) k = Some j \<and> job_status j = pending"
      using rest k by (simp add: processJob_start_other)
  qed
  show ?case
    using Cons.prems(1) Cons.IH[OF Cons.prems(1) d(1) rest] Cons.IH[OF inv1 d(1) rest1]
    by simp
qed

lemma job_ids:
  assumes "jqInv U q"
  shows "map job_id (map snd (jobs q)) = map fst (jobs q)"
proof -
  have d: "distinct (map fst (jobs q))" using assms by (simp add: jqInv_def)
  have "job_id (snd x) = fst x" if "x \<in> set (jobs q)" for x
  proof -
    have "(fst x, snd x) \<in> set (jobs q)" using that by simp
    then have "map_of (jobs q) (fst x) = Some (snd x)" using d by simp
    then have "jobInv q (fst x) (snd x)" using assms unfolding jqInv_def by blast
    then show ?thesis by (simp add: jobInv_def)
  qed
  then show ?thesis by simp
qed

lemma duePending_set:
  "set (duePending now q)
     = {j \<in> snd ` set (jobs q). job_status j = pending \<and> job_nextRunAt j \<le> now}"
  by (auto simp: duePending_def)

lemma duePending_ids:
  assumes "jqInv U q"
  shows "distinct (map job_id (duePending now q))"
    and "i \<in> set (map job_id (duePending now q))
           \<longleftrightarrow> (\<exists>j. map_of (jobs q) i = Some j \<and> job_status j = pending
                     \<and> job_nextRunAt j \<le> now)"
proof -
  have d: "distinct (map fst (jobs q))" using assms by (simp add: jqInv_def)
  have dj: "distinct (map job_id (map snd (jobs q)))"
    unfolding job_ids[OF assms] by (rule d)
  let ?xs = "filter (\<lambda>j. job_status j = pending \<and> job_nextRunAt j \<le> now) (map snd (jobs q))"
  have "distinct (map job_id ?xs)" using dj by (rule distinct_map_filter)
  then have "distinct ?xs \<and> inj_on job_id (set ?xs)" by (simp add: distinct_map)
  then have "distinct (sort_key (\<lambda>j. (- job_priority j, job_createdAt j)) ?xs)
             \<and> inj_on job_id (set (sort_key (\<lambda>j. (- job_priority j, job_createdAt j)) ?xs))"
    by simp
  then show "distinct (map job_id (duePending now q))"
    unfolding duePending_def by (simp only: distinct_map)
  show "i \<in> set (map job_id (duePending now q))
           \<longleftrightarrow> (\<exists>j. map_of (jobs q) i = Some j \<and> job_status j = pending
                     \<and> job_nextRunAt j \<le> now)"
  proof
    assume "i \<in> set (map job_id (duePending now q))"
    then obtain j where j: "j \<in> snd ` set (jobs q)" "job_status j = pending"
        "job_nextRunAt j \<le> now" "job_id j = i"
      by (auto simp: duePending_set)
    then obtain k where "(k, j) \<in> set (jobs q)" by force
    then have m: "map_of (jobs q) k = Some j" using d by simp
    then have "jobInv q k j" using assms unfolding jqInv_def by blast
    then have "k = i" using j by (simp add: jobInv_def)
    then show "\<exists>j. map_of (jobs q) i = Some j \<and> job_status j = pending \<and> job_nextRunAt j \<le> now"
      using m j by blast
  next
    assume "\<exists>j. map_of (jobs q) i = Some j \<and> job_status j = pending \<and> job_nextRunAt j \<le> now"
    then obtain j where j: "map_of (jobs q) i = Some j" "job_status j = pending"
        "job_nextRunAt j \<le> now"
      by blast
    then have "jobInv q i j" using assms unfolding jqInv_def by blast
    then have "job_id j = i" by (simp add: jobInv_def)
    moreover have "(i, j) \<in> set (jobs q)" using j(1) by (rule map_of_SomeD)
    then have "j \<in> snd ` set (jobs q)" by force
    ultimately show "i \<in> set (map job_id (duePending now q))"
      using j by (auto simp: duePending_set)
  qed
qed

lemma jqInv_processJobs:
  assumes "jqInv U q"
  shows "jqInv U (processJobs now q)"
proof -
  have "jqInv U (startAll (map job_id (duePending now q)) q)"
    using assms duePending_ids[OF assms]
    by (rule_tac jqInv_startAll) blast+
  then show ?thesis using assms by (simp add: processJobs_def)
qed

lemma jqInv_step:
  assumes "jqInv U q" "set (generatedIds [e]) \<inter> U = {}"
  shows "jqInv (U \<union> set (generatedIds [e])) (jqStep q e)"
proof (cases e)
  case (AddJob jobId now ty dat opts)
  then show ?thesis using assms jqInv_addJob[of U q jobId now ty dat opts] by simp
next
  case (RegisterHandler ty)
  then show ?thesis using assms by (simp add: jqInv_registerHandler)
next
  case (CancelJob jobId)
  then show ?thesis using assms by (simp add: jqInv_cancelJob)
next
  case (Tick now)
  then show ?thesis using assms by (simp add: jqInv_processJobs)
next
  case (HandlerSettles jobId st outcome now)
  then show ?thesis using assms by (simp add: jqInv_handlerSettled)
next
  case (Cleanup now)
  then show ?thesis using assms by (simp add: jqInv_cleanup)
qed

lemma generatedIds_Cons: "generatedIds (e # evs) = generatedIds [e] @ generatedIds evs"
  by (cases e) simp_all

lemma jqInv_run:
  assumes "jqInv U q" "distinct (generatedIds evs)" "set (generatedIds evs) \<inter> U = {}"
  shows "jqInv (U \<union> set (generatedIds evs)) (jqRun evs q)"
  using assms
proof (induction evs arbitrary: U q)
  case Nil
  then show ?case by (simp add: jqRun_def)
next
  case (Cons e evs)
  have ids: "generatedIds (e # evs) = generatedIds [e] @ generatedIds evs"
    by (rule generatedIds_Cons)
  have 1: "jqInv (U \<union> set (generatedIds [e])) (jqStep q e)"
    using Cons.prems(1,3) unfolding ids by (intro jqInv_step) auto
  have 2: "distinct (generatedIds evs)" using Cons.prems(2) unfolding ids by simp
  have 3: "set (generatedIds evs) \<inter> (U \<union> set (generatedIds [e])) = {}"
    using Cons.prems(2,3) unfolding ids by auto
  from Cons.IH[OF 1 2 3] show ?case
    unfolding ids by (simp add: jqRun_def Un_assoc)
qed

lemma startAll_frame:
  "config (startAll ids q) = config q"
  "handlers (startAll ids q) = handlers q"
  by (induction ids arbitrary: q) (simp_all add: processJob_start_frame)

lemma config_step: "config (jqStep q e) = config q"
  by (cases e)
     (simp_all add: addJob_def cancelJob_def registerHandler_def processJobs_def startAll_frame
                    handlerSettled_eq cleanup_def Let_def split: option.splits)

lemma config_run: "config (jqRun evs q) = config q"
  unfolding jqRun_def by (induction evs arbitrary: q) (simp_all add: config_step)

lemma startAll_other:
  assumes "i \<notin> set ids"
  shows "map_of (jobs (startAll ids q)) i = map_of (jobs q) i"
    and "count_list (invoked (startAll ids q)) i = count_list (invoked q) i"
  using assms
  by (induction ids arbitrary: q) (simp_all add: processJob_start_other)

text \<open>A job that is not pending or not due is left alone by a tick.\<close>

lemma tick_leaves:
  assumes "jqInv U q" "map_of (jobs q) i = Some j"
    and "job_status j \<noteq> pending \<or> now < job_nextRunAt j"
  shows "map_of (jobs (processJobs now q)) i = Some j"
    and "count_list (invoked (processJobs now q)) i = count_list (invoked q) i"
proof -
  have "i \<notin> set (map job_id (duePending now q))"
    unfolding duePending_ids(2)[OF assms(1)] using assms(2,3) by auto
  then show "map_of (jobs (processJobs now q)) i = Some j"
    and "count_list (invoked (processJobs now q)) i = count_list (invoked q) i"
    using assms(2) by (simp_all add: processJobs_def startAll_other)
qed

text \<open>A failed job is changed by no event, except that \<open>cleanup\<close> may delete it.\<close>

lemma failed_stays:
  assumes "jqInv U q" "map_of (jobs q) i = Some j" "job_status j = failed"
    and "i \<notin> set (generatedIds [e])"
  shows "count_list (invoked (jqStep q e)) i = count_list (invoked q) i"
    and "map_of (jobs (jqStep q e)) i = Some j
         \<or> map_of (jobs (jqStep q e)) i = None \<and> (\<exists>now. e = Cleanup now)"
proof -
  have inv: "jobInv q i j" using assms unfolding jqInv_def by blast
  then have notrun: "i \<notin> running_ids q" using assms(3) by (simp add: jobInv_def)
  have d: "distinct (map fst (jobs q))" using assms(1) by (simp add: jqInv_def)
  have "count_list (invoked (jqStep q e)) i = count_list (invoked q) i
        \<and> (map_of (jobs (jqStep q e)) i = Some j
           \<or> map_of (jobs (jqStep q e)) i = None \<and> (\<exists>now. e = Cleanup now))"
  proof (cases e)
    case (AddJob jobId now ty dat opts)
    then have "jobId \<noteq> i" using assms(4) by simp
    then show ?thesis using AddJob assms(2)
      by (simp add: addJob_def Let_def update_conv' split: option.splits)
  next
    case (RegisterHandler ty)
    then show ?thesis using assms(2) by (simp add: registerHandler_def)
  next
    case (CancelJob jobId)
    then show ?thesis using assms(2,3)
      by (cases "jobId = i") (simp_all add: cancelJob_def update_conv' split: option.splits)
  next
    case (Tick now)
    then show ?thesis using tick_leaves[OF assms(1,2), of now] assms(3) by simp
  next
    case (HandlerSettles jobId st outcome now)
    show ?thesis
    proof (cases "jobId \<in> running_ids q")
      case True
      then have "jobId \<noteq> i" using notrun by blast
      then show ?thesis using HandlerSettles True assms(2)
        by (simp add: handlerSettled_eq map_of_updateJob)
    next
      case False
      then show ?thesis using HandlerSettles assms(2) by simp
    qed
  next
    case (Cleanup now)
    define P :: "string \<times> ('a, 'b) Job \<Rightarrow> bool" where
      "P = (\<lambda>(jobId, job). \<not> ((job_status job = completed \<or> job_status job = failed)
              \<and> job_createdAt job < now - 24 * 60 * 60 * 1000))"
    have eq: "jobs (cleanup now q) = filter P (jobs q)" "invoked (cleanup now q) = invoked q"
      by (simp_all add: cleanup_def Let_def P_def)
    have "map_of (filter P (jobs q)) i = Some j \<or> map_of (filter P (jobs q)) i = None"
    proof (cases "map_of (filter P (jobs q)) i")
      case None
      then show ?thesis by simp
    next
      case (Some j')
      then have "(i, j') \<in> set (filter P (jobs q))" by (rule map_of_SomeD)
      then have "(i, j') \<in> set (jobs q)" by simp
      then have "map_of (jobs q) i = Some j'" using d by simp
      then show ?thesis using Some assms(2) by simp
    qed
    then show ?thesis using Cleanup eq by auto
  qed
  then show "count_list (invoked (jqStep q e)) i = count_list (invoked q) i"
    and "map_of (jobs (jqStep q e)) i = Some j
         \<or> map_of (jobs (jqStep q e)) i = None \<and> (\<exists>now. e = Cleanup now)"
    by blast+
qed

text \<open>
  When there is room for every job that is due, a tick starts each of them that has a
  handler.
\<close>

lemma startAll_starts:
  assumes "distinct ids" "finite (running_ids q)"
    and "\<forall>k \<in> set ids. k \<notin> running_ids q \<and> map_of (jobs q) k \<noteq> None"
    and "int (card (running_ids q)) + int (length ids) \<le> maxConcurrency (config q)"
    and "i \<in> set ids" "map_of (jobs q) i = Some j" "job_type j \<in> handlers q"
  shows "map_of (jobs (startAll ids q)) i = Some (j\<lparr>job_status := running\<rparr>)
         \<and> count_list (invoked (startAll ids q)) i = count_list (invoked q) i + 1"
  using assms
proof (induction ids arbitrary: q)
  case Nil
  then show ?case by simp
next
  case (Cons k ids)
  let ?q1 = "processJob_start k q"
  have room: "int (card (running_ids q)) < maxConcurrency (config q)"
    using Cons.prems(4) by simp
  have k: "k \<notin> running_ids q" "k \<notin> set ids" "distinct ids"
    using Cons.prems(1,3) by simp_all
  have step: "startAll (k # ids) q = startAll ids ?q1"
    using room k by simp
  obtain jk where jk: "map_of (jobs q) k = Some jk" using Cons.prems(3) by auto
  have sub: "running_ids ?q1 \<subseteq> insert k (running_ids q)"
    by (rule processJob_start_frame)
  have fin1: "finite (running_ids ?q1)"
    using sub Cons.prems(2) by (meson finite_insert finite_subset)
  have "card (running_ids ?q1) \<le> card (insert k (running_ids q))"
    using sub Cons.prems(2) by (intro card_mono) simp_all
  then have card1: "card (running_ids ?q1) \<le> card (running_ids q) + 1"
    using Cons.prems(2) k(1) by simp
  show ?case
  proof (cases "k = i")
    case True
    have "map_of (jobs ?q1) i = Some (j\<lparr>job_status := running\<rparr>)"
      "invoked ?q1 = invoked q @ [i]"
      using processJob_start_spec[OF Cons.prems(6)] room Cons.prems(7) True by auto
    then show ?thesis
      unfolding step using k(2) True by (simp add: startAll_other)
  next
    case False
    then have i: "i \<in> set ids" using Cons.prems(5) by simp
    have 3: "\<forall>k' \<in> set ids. k' \<notin> running_ids ?q1 \<and> map_of (jobs ?q1) k' \<noteq> None"
    proof
      fix k' assume k': "k' \<in> set ids"
      then have ne: "k' \<noteq> k" using k(2) by blast
      have "k' \<notin> running_ids q" "map_of (jobs q) k' \<noteq> None"
        using Cons.prems(3) k' by simp_all
      then show "k' \<notin> running_ids ?q1 \<and> map_of (jobs ?q1) k' \<noteq> None"
        using ne sub by (auto simp: processJob_start_other)
    qed
    have 4: "int (card (running_ids ?q1)) + int (length ids) \<le> maxConcurrency (config ?q1)"
      using card1 Cons.prems(4) by (simp add: processJob_start_frame)
    have 6: "map_of (jobs ?q1) i = Some j"
      using False Cons.prems(6) by (simp add: processJob_start_other)
    have 7: "job_type j \<in> handlers ?q1"
      using Cons.prems(7) by (simp add: processJob_start_frame)
    have "count_list (invoked ?q1) i = count_list (invoked q) i"
      using False by (simp add: processJob_start_other)
    then show ?thesis
      unfolding step using Cons.IH[OF k(3) fin1 3 4 i 6 7] by simp
  qed
qed

lemma tick_starts:
  assumes "jqInv U q" "map_of (jobs q) i = Some j"
    and "job_status j = pending" "job_nextRunAt j \<le> now" "job_type j \<in> handlers q"
    and "int (card (running_ids q)) + int (length (duePending now q)) \<le> maxConcurrency (config q)"
  shows "map_of (jobs (processJobs now q)) i = Some (j\<lparr>job_status := running\<rparr>)
         \<and> count_list (invoked (processJobs now q)) i = count_list (invoked q) i + 1"
proof -
  let ?ids = "map job_id (duePending now q)"
  have i: "i \<in> set ?ids"
    using assms(2,3,4) unfolding duePending_ids(2)[OF assms(1)] by blast
  then have "length (duePending now q) \<noteq> 0" by auto
  then have room: "int (card (running_ids q)) < maxConcurrency (config q)"
    using assms(6) by linarith
  have fin: "finite (running_ids q)"
    using assms(1) unfolding jqInv_def by (meson finite_imageI finite_set finite_subset)
  have 3: "\<forall>k \<in> set ?ids. k \<notin> running_ids q \<and> map_of (jobs q) k \<noteq> None"
  proof
    fix k assume "k \<in> set ?ids"
    then obtain jk where jk: "map_of (jobs q) k = Some jk" "job_status jk = pending"
      unfolding duePending_ids(2)[OF assms(1)] by blast
    then have "jobInv q k jk" using assms(1) unfolding jqInv_def by blast
    then have "k \<notin> running_ids q" using jk(2) by (simp add: jobInv_def)
    then show "k \<notin> running_ids q \<and> map_of (jobs q) k \<noteq> None" using jk by simp
  qed
  have 4: "int (card (running_ids q)) + int (length ?ids) \<le> maxConcurrency (config q)"
    using assms(6) by simp
  from startAll_starts[OF duePending_ids(1)[OF assms(1)] fin 3 4 i assms(2,5)]
  show ?thesis using room by (simp add: processJobs_def)
qed

text \<open>What the failure of a running job does to the queue.\<close>

lemma failure_step:
  assumes "i \<in> running_ids q" "map_of (jobs q) i = Some j"
  shows "map_of (jobs (jqStep q (HandlerSettles i st (Inl msg) now))) i
           = Some (failed_once now msg (retryDelayMs (config q)) j)"
    and "k \<noteq> i \<Longrightarrow> map_of (jobs (jqStep q (HandlerSettles i st (Inl msg) now))) k
                     = map_of (jobs q) k"
    and "invoked (jqStep q (HandlerSettles i st (Inl msg) now)) = invoked q"
    and "running_ids (jqStep q (HandlerSettles i st (Inl msg) now)) = running_ids q - {i}"
  using assms by (simp_all add: handlerSettled_eq map_of_updateJob)

text \<open>
  C3, as amended. Take any sequence of events on a new queue in which the generated job
  ids are distinct: jobs are added, handlers registered, jobs cancelled, ticks come at
  any time, handlers of any jobs return or throw, \<open>cleanup\<close> runs. Let \<open>j\<close> be a
  job stored under the id \<open>i\<close> in the state reached, and \<open>m\<close> its \<open>maxRetries\<close>
  (1 for a job with \<open>maxRetries\<close> below 1). Then the handler has been called for
  the job at most \<open>m\<close> times. While the job is pending or cancelled, every call so
  far has failed: the calls number \<open>retryCount\<close>, which is below \<open>m\<close>, and the
  last error is recorded; while it is running, the calls number \<open>retryCount + 1\<close>.
  A failed job either never had a handler and was never called, or it was called
  exactly \<open>m\<close> times, \<open>retryCount\<close> is \<open>m\<close> and the last error is recorded.
  When the handler of the running job throws at time \<open>now\<close>, the job gets
  \<open>retryCount + 1\<close> and becomes pending with
  \<open>nextRunAt = now + retryDelayMs * retryCount\<close> if the new count is below
  \<open>maxRetries\<close>, and failed otherwise, and no other job changes. A tick starts a
  pending job that is due and has a handler when there is room for all jobs that are
  due, and leaves alone a pending job that is not yet due. A failed job is started by
  no event and changed by none; \<open>cleanup\<close> may delete it.
\<close>

theorem C3_failing_job_executions:
  assumes "distinct (generatedIds evs)"
    and "s = jqRun evs (newJobQueue cfg)"
    and "getJob i s = Some j"
    and "m = max 1 (job_maxRetries j)"
  shows "int (executions i s) \<le> m \<and> 0 \<le> job_retryCount j \<and> job_retryCount j \<le> m
     \<and> (job_status j = pending \<or> job_status j = cancelled \<longrightarrow>
          int (executions i s) = job_retryCount j \<and> job_retryCount j < m)
     \<and> (job_status j = pending \<and> 0 < job_retryCount j \<longrightarrow>
          (\<exists>msg'. job_error j = Some (AttemptFailed (job_retryCount j) msg')))
     \<and> (job_status j = running \<longrightarrow>
          i \<in> running_ids s \<and> int (executions i s) = job_retryCount j + 1
          \<and> job_retryCount j < m)
     \<and> (job_status j = failed \<longrightarrow>
          int (executions i s) = job_retryCount j
          \<and> ((\<exists>msg'. job_error j = Some (MaxRetriesExceeded msg')) \<and> job_retryCount j = m
             \<or> (\<exists>ty. job_error j = Some (NoHandlerRegistered ty)) \<and> job_retryCount j = 0))
     \<and> (i \<in> running_ids s \<longrightarrow>
          getJob i (jqStep s (HandlerSettles i st (Inl msg) now))
            = Some (if job_retryCount j + 1 < job_maxRetries j
                    then j\<lparr>job_retryCount := job_retryCount j + 1, job_status := pending,
                           job_nextRunAt := now + retryDelayMs cfg * (job_retryCount j + 1),
                           job_error := Some (AttemptFailed (job_retryCount j + 1) msg)\<rparr>
                    else j\<lparr>job_retryCount := job_retryCount j + 1, job_status := failed,
                           job_error := Some (MaxRetriesExceeded msg)\<rparr>)
          \<and> (\<forall>k. k \<noteq> i \<longrightarrow>
                getJob k (jqStep s (HandlerSettles i st (Inl msg) now)) = getJob k s)
          \<and> invoked (jqStep s (HandlerSettles i st (Inl msg) now)) = invoked s)
     \<and> (job_status j = pending \<and> job_nextRunAt j \<le> tick \<and> job_type j \<in> handlers s
          \<and> int (card (running_ids s)) + int (length (duePending tick s))
               \<le> maxConcurrency cfg \<longrightarrow>
          getJob i (jqStep s (Tick tick)) = Some (j\<lparr>job_status := running\<rparr>)
          \<and> executions i (jqStep s (Tick tick)) = executions i s + 1)
     \<and> (job_status j = pending \<and> tick < job_nextRunAt j \<longrightarrow>
          getJob i (jqStep s (Tick tick)) = Some j
          \<and> executions i (jqStep s (Tick tick)) = executions i s)
     \<and> (job_status j = failed \<and> i \<notin> set (generatedIds [e]) \<longrightarrow>
          executions i (jqStep s e) = executions i s
          \<and> (getJob i (jqStep s e) = Some j
             \<or> getJob i (jqStep s e) = None \<and> (\<exists>t. e = Cleanup t)))"
proof -
  have "jqInv ({} \<union> set (generatedIds evs)) (jqRun evs (newJobQueue cfg))"
    using jqInv_new assms(1) by (rule jqInv_run) simp
  then have inv: "jqInv (set (generatedIds evs)) s" using assms(2) by simp
  have cfg: "config s = cfg" using assms(2) by (simp add: config_run newJobQueue_def)
  have stored: "map_of (jobs s) i = Some j" using assms(3) by (simp add: getJob_def)
  have ji: "jobInv s i j" using inv stored unfolding jqInv_def by blast
  have counts: "int (executions i s) \<le> m \<and> 0 \<le> job_retryCount j \<and> job_retryCount j \<le> m
     \<and> (job_status j = pending \<or> job_status j = cancelled \<longrightarrow>
          int (executions i s) = job_retryCount j \<and> job_retryCount j < m)
     \<and> (job_status j = pending \<and> 0 < job_retryCount j \<longrightarrow>
          (\<exists>msg'. job_error j = Some (AttemptFailed (job_retryCount j) msg')))
     \<and> (job_status j = running \<longrightarrow>
          i \<in> running_ids s \<and> int (executions i s) = job_retryCount j + 1
          \<and> job_retryCount j < m)
     \<and> (job_status j = failed \<longrightarrow>
          int (executions i s) = job_retryCount j
          \<and> ((\<exists>msg'. job_error j = Some (MaxRetriesExceeded msg')) \<and> job_retryCount j = m
             \<or> (\<exists>ty. job_error j = Some (NoHandlerRegistered ty)) \<and> job_retryCount j = 0))"
    using ji assms(4)
    by (cases "job_status j")
       (auto simp: jobInv_def split: option.splits JobError.splits)
  have failure: "getJob i (jqStep s (HandlerSettles i st (Inl msg) now))
            = Some (if job_retryCount j + 1 < job_maxRetries j
                    then j\<lparr>job_retryCount := job_retryCount j + 1, job_status := pending,
                           job_nextRunAt := now + retryDelayMs cfg * (job_retryCount j + 1),
                           job_error := Some (AttemptFailed (job_retryCount j + 1) msg)\<rparr>
                    else j\<lparr>job_retryCount := job_retryCount j + 1, job_status := failed,
                           job_error := Some (MaxRetriesExceeded msg)\<rparr>)
          \<and> (\<forall>k. k \<noteq> i \<longrightarrow>
                getJob k (jqStep s (HandlerSettles i st (Inl msg) now)) = getJob k s)
          \<and> invoked (jqStep s (HandlerSettles i st (Inl msg) now)) = invoked s"
    if "i \<in> running_ids s"
    using failure_step[OF that stored, where st=st and msg=msg and now=now] cfg
    unfolding getJob_def failed_once_def by simp
  have starts: "getJob i (jqStep s (Tick tick)) = Some (j\<lparr>job_status := running\<rparr>)
          \<and> executions i (jqStep s (Tick tick)) = executions i s + 1"
    if "job_status j = pending \<and> job_nextRunAt j \<le> tick \<and> job_type j \<in> handlers s
          \<and> int (card (running_ids s)) + int (length (duePending tick s))
               \<le> maxConcurrency cfg"
    using tick_starts[OF inv stored, of tick] that cfg
    by (simp add: getJob_def executions_def)
  have waits: "getJob i (jqStep s (Tick tick)) = Some j
          \<and> executions i (jqStep s (Tick tick)) = executions i s"
    if "job_status j = pending \<and> tick < job_nextRunAt j"
    using tick_leaves[OF inv stored, of tick] that
    by (simp add: getJob_def executions_def)
  have terminal: "executions i (jqStep s e) = executions i s
          \<and> (getJob i (jqStep s e) = Some j
             \<or> getJob i (jqStep s e) = None \<and> (\<exists>t. e = Cleanup t))"
    if "job_status j = failed \<and> i \<notin> set (generatedIds [e])"
    using failed_stays[OF inv stored, of e] that
    by (simp add: getJob_def executions_def)
  from counts failure starts waits terminal show ?thesis by blast
qed

lemma thirdAttempt_state:
  "thirdAttempt =
     \<lparr> jobs = [(''j1'', jobJ1 2 180020 running (Some (AttemptFailed 2 ''boom''))),
               (''j2'', jobJ2)],
       handlers = {''t''}, running_ids = {''j1''}, config = defaultQueueConfig,
       invoked = [''j1'', ''j2'', ''j1'', ''j1''] \<rparr>"
  by (simp add: thirdAttempt_def retryEvents_def jqRun_def jobQueue_defs jobJ1_def jobJ2_def
                Let_def insert_commute)

lemma afterRetries_state:
  "afterRetries =
     \<lparr> jobs = [(''j1'', jobJ1 3 180020 failed (Some (MaxRetriesExceeded ''boom''))),
               (''j2'', jobJ2)],
       handlers = {''t''}, running_ids = {}, config = defaultQueueConfig,
       invoked = [''j1'', ''j2'', ''j1'', ''j1''] \<rparr>"
  by (simp add: afterRetries_def retryEvents_def jqRun_def jobQueue_defs jobJ1_def jobJ2_def
                Let_def insert_commute)

text \<open>
  The theorem at the job \<open>j1\<close> of \<open>retryEvents\<close>, next to the completed job
  \<open>j2\<close>: running for the third time it has been called 3 times; the third failure
  makes it failed with \<open>retryCount = 3\<close> and leaves \<open>j2\<close> as it is; the later tick
  does not call it again.
\<close>

theorem C3_failing_job_executions_witness:
  "executions ''j1'' thirdAttempt = 3
   \<and> getJob ''j1'' (jqStep thirdAttempt (HandlerSettles ''j1'' 180020 (Inl ''boom'') 180030))
       = Some (jobJ1 3 180020 failed (Some (MaxRetriesExceeded ''boom'')))
   \<and> getJob ''j2'' (jqStep thirdAttempt (HandlerSettles ''j1'' 180020 (Inl ''boom'') 180030))
       = Some jobJ2
   \<and> getJob ''j1'' afterRetries
       = Some (jobJ1 3 180020 failed (Some (MaxRetriesExceeded ''boom'')))
   \<and> executions ''j1'' afterRetries = 3
   \<and> executions ''j1'' (jqStep afterRetries (Tick 400000)) = 3
   \<and> getJob ''j1'' (jqStep afterRetries (Tick 400000))
       = Some (jobJ1 3 180020 failed (Some (MaxRetriesExceeded ''boom'')))"
proof -
  let ?running = "jobJ1 2 180020 running (Some (AttemptFailed 2 ''boom''))"
  let ?failed = "jobJ1 3 180020 failed (Some (MaxRetriesExceeded ''boom''))"
  have d1: "distinct (generatedIds retryEvents)"
    by (simp add: retryEvents_def)
  have d2: "distinct (generatedIds
              (retryEvents @ [HandlerSettles ''j1'' 180020 (Inl ''boom'') 180030]))"
    by (simp add: retryEvents_def)
  have g1: "getJob ''j1'' thirdAttempt = Some ?running"
    and g2: "getJob ''j2'' thirdAttempt = Some jobJ2"
    and r1: "''j1'' \<in> running_ids thirdAttempt"
    by (simp_all add: thirdAttempt_state getJob_def)
  have g3: "getJob ''j1'' afterRetries = Some ?failed"
    by (simp add: afterRetries_state getJob_def)
  have m1: "3 = max 1 (job_maxRetries ?running)" and m2: "3 = max 1 (job_maxRetries ?failed)"
    by (simp_all add: jobJ1_def)
  note third = C3_failing_job_executions
                 [OF d1 thirdAttempt_def g1 m1,
                  where st = 180020 and msg = "''boom''" and now = 180030]
  note after = C3_failing_job_executions
                 [OF d2 afterRetries_def g3 m2, where e = "Tick 400000"]
  have 1: "executions ''j1'' thirdAttempt = 3"
    using third by (simp add: jobJ1_def)
  have 2: "getJob ''j1'' (jqStep thirdAttempt (HandlerSettles ''j1'' 180020 (Inl ''boom'') 180030))
             = Some ?failed"
    using third r1 by (simp add: jobJ1_def)
  have 3: "getJob ''j2'' (jqStep thirdAttempt (HandlerSettles ''j1'' 180020 (Inl ''boom'') 180030))
             = Some jobJ2"
    using third r1 g2 by simp
  have 5: "executions ''j1'' afterRetries = 3"
    using after by (simp add: jobJ1_def)
  have 6: "executions ''j1'' (jqStep afterRetries (Tick 400000)) = 3
           \<and> getJob ''j1'' (jqStep afterRetries (Tick 400000)) = Some ?failed"
    using after 5 by (simp add: jobJ1_def)
  from 1 2 3 g3 5 6 show ?thesis by simp
qed

section \<open>Properties of the load balancer\<close>

declare processNextInQueue.simps [simp del]

lemmas loadBalancer_defs =
  sampled_def loadBalancer_def newLoadBalancer_def noOverrides_def orElse_def setLimit_def
  checkAdaptiveThrottling_def mean_def above_def below_def getPercentile_def

lemma floor_rat_numeral: "\<lfloor>numeral a / numeral b :: rat\<rfloor> = numeral a div numeral b"
  using floor_divide_of_int_eq [of "numeral a" "numeral b", where ?'a = rat] by simp

lemma ceiling_rat_numeral:
  "\<lceil>numeral a / numeral b :: rat\<rceil> = - (- numeral a div numeral b)"
  using floor_divide_of_int_eq [of "- numeral a" "numeral b", where ?'a = rat]
  by (simp add: ceiling_def)

subsection \<open>Request priorities\<close>

lemma prefixFree_default: "prefixFree defaultPriorityLevels"
  by (simp add: prefixFree_def defaultPriorityLevels_def)

lemma prefixFree_unique:
  assumes pf: "prefixFree levels"
    and a: "(k1, v1) \<in> set levels" "k1 \<noteq> ''default''" "prefix k1 path"
    and b: "(k2, v2) \<in> set levels" "k2 \<noteq> ''default''" "prefix k2 path"
    and len: "length k2 \<le> length k1"
  shows "v1 = v2"
proof -
  from a(3) b(3) len have "prefix k2 k1"
    by (metis prefix_length_prefix)
  with pf a b show ?thesis
    by (fastforce simp: prefixFree_def list_all_iff)
qed

text \<open>
  \<open>getRequestPriority\<close> takes the first pattern, in the order of the table, that the
  path starts with. In a prefix-free table that pattern is the only match, hence the
  longest.
\<close>

lemma getRequestPriority_longest:
  assumes pf: "prefixFree levels"
    and m: "(pattern, p) \<in> set levels" "pattern \<noteq> ''default''" "prefix pattern path"
    and longest: "\<forall>(k, v) \<in> set levels.
                    k \<noteq> ''default'' \<and> prefix k path \<longrightarrow> length k \<le> length pattern"
  shows "getRequestPriority levels path = Some p"
proof -
  let ?P = "\<lambda>(pattern, p). pattern \<noteq> ''default'' \<and> prefix pattern path"
  from m have "\<exists>x \<in> set levels. ?P x" by auto
  then have "List.find ?P levels \<noteq> None" by (auto simp: find_None_iff)
  then obtain k v where f: "List.find ?P levels = Some (k, v)" by auto
  then have kv: "(k, v) \<in> set levels" "k \<noteq> ''default''" "prefix k path"
    using find_Some_holds[OF f] by auto
  with longest have "length k \<le> length pattern" by auto
  with prefixFree_unique[OF pf m kv] have "p = v" by simp
  with f show ?thesis by (simp add: getRequestPriority_def)
qed

lemma getRequestPriority_unmatched:
  assumes "\<forall>(k, v) \<in> set levels. k \<noteq> ''default'' \<longrightarrow> \<not> prefix k path"
  shows "getRequestPriority levels path = map_of levels ''default''"
proof -
  let ?P = "\<lambda>(pattern, p). pattern \<noteq> ''default'' \<and> prefix pattern path"
  from assms have "List.find ?P levels = None" by (auto simp: find_None_iff)
  then show ?thesis by (simp add: getRequestPriority_def)
qed

text \<open>
  C7. With the table of the load balancer of this module, for every path: when
  \<open>pattern\<close> is a pattern of the table that the path starts with, and no pattern of
  the table that the path starts with is longer, the priority is the one the table maps
  \<open>pattern\<close> to; when the path starts with no pattern of the table, the priority is
  the default one, 1.
\<close>

theorem C7_longest_prefix_priority:
  "((pattern, p) \<in> set defaultPriorityLevels \<and> pattern \<noteq> ''default'' \<and> prefix pattern path
      \<and> (\<forall>(k, v) \<in> set defaultPriorityLevels.
            k \<noteq> ''default'' \<and> prefix k path \<longrightarrow> length k \<le> length pattern)
     \<longrightarrow> getRequestPriority (priorityLevels (lbConfig (loadBalancer t0))) path = Some p)
   \<and> ((\<forall>(k, v) \<in> set defaultPriorityLevels. k \<noteq> ''default'' \<longrightarrow> \<not> prefix k path)
     \<longrightarrow> getRequestPriority (priorityLevels (lbConfig (loadBalancer t0))) path = Some 1)"
proof (intro conjI impI)
  have tbl: "priorityLevels (lbConfig (loadBalancer t0)) = defaultPriorityLevels"
    by (simp add: loadBalancer_def newLoadBalancer_def noOverrides_def orElse_def)
  {
    assume "(pattern, p) \<in> set defaultPriorityLevels \<and> pattern \<noteq> ''default''
        \<and> prefix pattern path
        \<and> (\<forall>(k, v) \<in> set defaultPriorityLevels.
              k \<noteq> ''default'' \<and> prefix k path \<longrightarrow> length k \<le> length pattern)"
    then show "getRequestPriority (priorityLevels (lbConfig (loadBalancer t0))) path = Some p"
      unfolding tbl using getRequestPriority_longest[OF prefixFree_default] by blast
  }
  {
    assume "\<forall>(k, v) \<in> set defaultPriorityLevels. k \<noteq> ''default'' \<longrightarrow> \<not> prefix k path"
    then have "getRequestPriority defaultPriorityLevels path
                 = map_of defaultPriorityLevels ''default''"
      by (rule getRequestPriority_unmatched)
    then show "getRequestPriority (priorityLevels (lbConfig (loadBalancer t0))) path = Some 1"
      unfolding tbl by (simp add: defaultPriorityLevels_def)
  }
qed

theorem C7_longest_prefix_priority_witness:
  "getRequestPriority (priorityLevels (lbConfig (loadBalancer 0))) ''/api/health/live'' = Some 10
   \<and> getRequestPriority (priorityLevels (lbConfig (loadBalancer 0))) ''/assets/app.js'' = Some 1"
  using C7_longest_prefix_priority [of "''/api/health''" 10 "''/api/health/live''" 0]
        C7_longest_prefix_priority [of "''x''" 0 "''/assets/app.js''" 0]
  by (simp add: defaultPriorityLevels_def)

subsection \<open>Bounds of the concurrency limit\<close>

lemma check_limit_cases:
  "limit (checkAdaptiveThrottling now s) = limit s
   \<or> limit (checkAdaptiveThrottling now s)
       = max 20 (limit s - min 50 \<lfloor>of_int (limit s) * (3 / 10) :: rat\<rfloor>)
   \<or> limit (checkAdaptiveThrottling now s)
       = max 30 (limit s - min 20 \<lfloor>of_int (limit s) * (2 / 10) :: rat\<rfloor>)
   \<or> limit (checkAdaptiveThrottling now s) = min 400 (limit s + 10)
   \<or> limit (checkAdaptiveThrottling now s) = min 500 (limit s + 15)"
  by (simp add: checkAdaptiveThrottling_def setLimit_def Let_def)

lemma check_bounds:
  assumes "20 \<le> limit s" "limit s \<le> 500"
  shows "20 \<le> limit (checkAdaptiveThrottling now s)
         \<and> limit (checkAdaptiveThrottling now s) \<le> 500"
proof -
  have a: "0 \<le> \<lfloor>of_int (limit s) * (3 / 10) :: rat\<rfloor>"
          "0 \<le> \<lfloor>of_int (limit s) * (2 / 10) :: rat\<rfloor>"
    using assms by simp_all
  show ?thesis
    using check_limit_cases[of now s] assms a by linarith
qed

lemma lbConfig_processNextInQueue [simp]: "lbConfig (processNextInQueue now s) = lbConfig s"
proof (induction now s rule: processNextInQueue.induct)
  case (1 now s)
  show ?case
    apply (subst processNextInQueue.simps)
    using 1 by (auto simp: Let_def respond_def processRequest_def split: list.splits)
qed

lemma lbConfig_record [simp]:
  "lbConfig (recordResponseTime t s) = lbConfig s"
  "lbConfig (recordErrorRate e s) = lbConfig s"
  by (simp_all add: recordResponseTime_def recordErrorRate_def Let_def)

lemma bounds_handleResponse:
  assumes "20 \<le> limit s" "limit s \<le> 500"
  shows "20 \<le> limit (handleResponse r c now s) \<and> limit (handleResponse r c now s) \<le> 500"
proof (cases "closures s r")
  case None
  then show ?thesis using assms by (simp add: handleResponse_def)
next
  case (Some cl)
  show ?thesis
  proof (cases "responseHandled cl")
    case True
    with Some show ?thesis using assms by (simp add: handleResponse_def)
  next
    case False
    define s4 where "s4 = processNextInQueue now
        (recordErrorRate (if c \<ge> 400 then 1 else 0)
          (recordResponseTime (now - startTime cl)
            (s\<lparr>closures := (closures s)(r \<mapsto> cl\<lparr>responseHandled := True\<rparr>),
               activeRequests := activeRequests s - 1\<rparr>)))"
    have l4: "limit s4 = limit s" by (simp add: s4_def)
    have "handleResponse r c now s =
            (if enableAdaptiveThrottling (lbConfig s4) then checkAdaptiveThrottling now s4 else s4)"
      using Some False by (simp add: handleResponse_def Let_def s4_def)
    then show ?thesis
      using check_bounds[of s4 now] l4 assms by simp
  qed
qed

lemma bounds_lbStep:
  assumes "20 \<le> limit s" "limit s \<le> 500"
  shows "20 \<le> limit (lbStep s e) \<and> limit (lbStep s e) \<le> 500"
proof (cases e)
  case (Incoming path now)
  then show ?thesis using assms
    by (simp add: middleware_def queueRequest_def processRequest_def respond_def Let_def)
next
  case (ResponseSignal r sig c now)
  then show ?thesis
    using bounds_handleResponse[OF assms] by (cases sig) (simp_all add: Let_def)
next
  case (QueueTimerFired r)
  then show ?thesis using assms by (simp add: timeoutQueuedRequest_def respond_def Let_def)
qed

lemma bounds_lbRun:
  assumes "20 \<le> limit s" "limit s \<le> 500"
  shows "20 \<le> limit (lbRun evs s) \<and> limit (lbRun evs s) \<le> 500"
  using assms unfolding lbRun_def
proof (induction evs arbitrary: s)
  case Nil
  then show ?case by simp
next
  case (Cons e evs)
  then show ?case using bounds_lbStep[of s e] by simp
qed

lemma bounds_controlTicks:
  assumes "20 \<le> limit s" "limit s \<le> 500"
  shows "20 \<le> limit (controlTicks ticks s) \<and> limit (controlTicks ticks s) \<le> 500"
  using assms
proof (induction ticks arbitrary: s)
  case Nil
  then show ?case by simp
next
  case (Cons t ticks)
  obtain late rts errs where t: "t = (late, rts, errs)" by (cases t)
  let ?s1 = "s\<lparr>responseTimeHistory := rts, errorRateHistory := errs\<rparr>"
  have "20 \<le> limit ?s1" "limit ?s1 \<le> 500" using Cons.prems by simp_all
  then have "20 \<le> limit (checkAdaptiveThrottling (lastAdaptiveCheck s + 5000 + int late) ?s1)
           \<and> limit (checkAdaptiveThrottling (lastAdaptiveCheck s + 5000 + int late) ?s1) \<le> 500"
    by (rule check_bounds)
  then show ?case using Cons.IH t by simp
qed

text \<open>
  C6, counterexample. No configured maximum or minimum exists: the floors and caps are
  constants of the four branches, and they differ. From the default limit 200, twenty
  ticks with good performance bring the limit to 400, where the gradual increase is
  capped; a tick with excellent performance then takes it to 415, and the next gradual
  "increase" takes it down to 400. Six ticks under extreme load bring the limit from 200
  to 26, below 30, where the moderate reduction is floored; a moderate "reduction" then
  takes it up to 30, a seventh extreme one down to 20.
\<close>

theorem C6_single_bounds_counterexample:
  "limit (controlTicks (replicate 20 goodTick) (loadBalancer 0)) = 400
   \<and> limit (controlTicks (replicate 20 goodTick @ [excellentTick]) (loadBalancer 0)) = 415
   \<and> limit (controlTicks (replicate 20 goodTick @ [excellentTick, goodTick]) (loadBalancer 0))
       = 400
   \<and> limit (controlTicks (replicate 6 extremeTick) (loadBalancer 0)) = 26
   \<and> limit (controlTicks (replicate 6 extremeTick @ [moderateTick]) (loadBalancer 0)) = 30
   \<and> limit (controlTicks (replicate 7 extremeTick) (loadBalancer 0)) = 20"
  by (simp add: goodTick_def excellentTick_def moderateTick_def extremeTick_def
                loadBalancer_defs Let_def floor_rat_numeral ceiling_rat_numeral
                eval_nat_numeral)

text \<open>
  C6, as amended. A concurrency limit that lies between 20 and 500 (the constructor's
  default is 200) stays between 20 and 500 under every control tick, under every sequence
  of control ticks and under every sequence of events of the load balancer. A tick leaves the limit \<open>l\<close> as it is or
  sets it to one of: \<open>l\<close> minus \<open>min 50 \<lfloor>0.3 l\<rfloor>\<close>, floored at 20; \<open>l\<close> minus
  \<open>min 20 \<lfloor>0.2 l\<rfloor>\<close>, floored at 30; \<open>l + 10\<close>, capped at 400; \<open>l + 15\<close>,
  capped at 500.
\<close>

theorem C6_limit_bounds:
  assumes "20 \<le> limit s" and "limit s \<le> 500"
  shows "20 \<le> limit (checkAdaptiveThrottling now s)
       \<and> limit (checkAdaptiveThrottling now s) \<le> 500
       \<and> 20 \<le> limit (controlTicks ticks s) \<and> limit (controlTicks ticks s) \<le> 500
       \<and> 20 \<le> limit (lbRun evs s) \<and> limit (lbRun evs s) \<le> 500
       \<and> (limit (checkAdaptiveThrottling now s) = limit s
          \<or> limit (checkAdaptiveThrottling now s)
              = max 20 (limit s - min 50 \<lfloor>of_int (limit s) * (3 / 10) :: rat\<rfloor>)
          \<or> limit (checkAdaptiveThrottling now s)
              = max 30 (limit s - min 20 \<lfloor>of_int (limit s) * (2 / 10) :: rat\<rfloor>)
          \<or> limit (checkAdaptiveThrottling now s) = min 400 (limit s + 10)
          \<or> limit (checkAdaptiveThrottling now s) = min 500 (limit s + 15))"
  using check_bounds[OF assms, of now] bounds_controlTicks[OF assms, of ticks]
    bounds_lbRun[OF assms, of evs] check_limit_cases[of now s]
  by blast

theorem C6_limit_bounds_witness:
  "20 \<le> limit (checkAdaptiveThrottling 5000 (sampled 30 [20000, 20000, 20000, 20000, 20000]))
   \<and> limit (checkAdaptiveThrottling 5000 (sampled 30 [20000, 20000, 20000, 20000, 20000])) \<le> 500
   \<and> 20 \<le> limit (controlTicks [extremeTick, goodTick]
                            (sampled 30 [20000, 20000, 20000, 20000, 20000]))
   \<and> limit (controlTicks [extremeTick, goodTick]
                       (sampled 30 [20000, 20000, 20000, 20000, 20000])) \<le> 500
   \<and> 20 \<le> limit (lbRun [Incoming ''/api/pos'' 1, ResponseSignal 0 ResSend 200 7000]
                      (sampled 30 [20000, 20000, 20000, 20000, 20000]))
   \<and> limit (lbRun [Incoming ''/api/pos'' 1, ResponseSignal 0 ResSend 200 7000]
                 (sampled 30 [20000, 20000, 20000, 20000, 20000])) \<le> 500"
  using C6_limit_bounds [of "sampled 30 [20000, 20000, 20000, 20000, 20000]" 5000
          "[extremeTick, goodTick]"
          "[Incoming ''/api/pos'' 1, ResponseSignal 0 ResSend 200 7000]"]
  by (simp add: sampled_def setLimit_def)

subsection \<open>The counter of active requests\<close>

lemma lbInv_cong:
  assumes "activeRequests s' = activeRequests s" "closures s' = closures s"
    "requestCount s' = requestCount s" "requestQueue s' = requestQueue s"
  shows "lbInv s' = lbInv s"
  using assms by (simp add: lbInv_def inflightSet_def)

lemma inflight_finite: "lbInv s \<Longrightarrow> finite (inflightSet s)"
proof -
  assume "lbInv s"
  then have "inflightSet s \<subseteq> {..<requestCount s}"
    by (auto simp: lbInv_def inflightSet_def)
  then show ?thesis using finite_subset by blast
qed

lemma inv_respond [simp]: "lbInv (respond r code s) = lbInv s"
  by (rule lbInv_cong) (simp_all add: respond_def)

lemma inv_record [simp]:
  "lbInv (recordResponseTime t s) = lbInv s" "lbInv (recordErrorRate e s) = lbInv s"
  by (rule lbInv_cong; simp add: recordResponseTime_def recordErrorRate_def Let_def)+

lemma inv_check [simp]: "lbInv (checkAdaptiveThrottling now s) = lbInv s"
  by (rule lbInv_cong; simp add: checkAdaptiveThrottling_def setLimit_def Let_def)+

lemma inv_processRequest:
  assumes "lbInv s" "r < requestCount s" "closures s r = None" "r \<notin> req ` set (requestQueue s)"
  shows "lbInv (processRequest r t s)"
proof -
  have fin: "finite (inflightSet s)" using assms(1) by (rule inflight_finite)
  have notin: "r \<notin> inflightSet s" using assms(3) by (simp add: inflightSet_def)
  have eq: "inflightSet (processRequest r t s) = insert r (inflightSet s)"
    using assms(3) by (auto simp: inflightSet_def processRequest_def)
  have "activeRequests (processRequest r t s) = int (card (inflightSet (processRequest r t s)))"
    using assms(1) fin notin by (simp add: eq) (simp add: processRequest_def lbInv_def)
  then show ?thesis
    using assms by (auto simp: lbInv_def processRequest_def)
qed

lemma inv_dequeue:
  assumes "lbInv s" "set qs \<subseteq> set (requestQueue s)" "distinct (map req qs)"
  shows "lbInv (s\<lparr>requestQueue := qs\<rparr>)"
  using assms by (auto simp: lbInv_def inflightSet_def)

lemma inv_processNextInQueue: "lbInv s \<Longrightarrow> lbInv (processNextInQueue now s)"
proof (induction now s rule: processNextInQueue.induct)
  case (1 now s)
  show ?case
  proof (cases "requestQueue s")
    case Nil
    then show ?thesis using 1(2) by (subst processNextInQueue.simps) simp
  next
    case (Cons q rest)
    show ?thesis
    proof (cases "activeRequests s \<ge> maxConcurrentRequests (lbConfig s)")
      case True
      then show ?thesis using 1(2) Cons by (subst processNextInQueue.simps) simp
    next
      case False
      let ?s1 = "s\<lparr>requestQueue := rest\<rparr>"
      have d: "distinct (map req (q # rest))" using 1(2) Cons by (simp add: lbInv_def)
      have inv1: "lbInv ?s1"
        using 1(2) Cons d by (intro inv_dequeue) auto
      show ?thesis
      proof (cases "now - timestamp q > requestTimeout (lbConfig ?s1)")
        case True
        have "lbInv (processNextInQueue now
                 (if req q \<notin> headersSent ?s1 then respond (req q) 408 ?s1 else ?s1))"
          using 1(1)[OF Cons False refl refl True] inv1
          by (cases "req q \<notin> headersSent ?s1") simp_all
        then show ?thesis using Cons False True
          by (subst processNextInQueue.simps) (simp add: Let_def)
      next
        case notexpired: False
        have q: "req q < requestCount s" "closures s (req q) = None"
          using 1(2) Cons by (auto simp: lbInv_def)
        have "lbInv (processRequest (req q) (timestamp q) ?s1)"
          using inv1 q d by (intro inv_processRequest) auto
        then show ?thesis using Cons False notexpired
          by (subst processNextInQueue.simps) (simp add: Let_def)
      qed
    qed
  qed
qed


lemma set_insertSorted [simp]: "set (insertSorted cmp x xs) = insert x (set xs)"
  by (induction xs) auto

lemma distinct_insertSorted [simp]:
  "distinct (map f (insertSorted cmp x xs)) = (f x \<notin> f ` set xs \<and> distinct (map f xs))"
  by (induction xs) auto

lemma set_arraySort [simp]: "set (arraySort cmp xs) = set xs"
  unfolding arraySort_def by (induction xs) auto

lemma distinct_arraySort [simp]: "distinct (map f (arraySort cmp xs)) = distinct (map f xs)"
  unfolding arraySort_def
proof (induction xs)
  case Nil
  show ?case by simp
next
  case (Cons x xs)
  have "set (foldr (insertSorted cmp) xs []) = set xs"
    using set_arraySort[of cmp xs] by (simp add: arraySort_def)
  with Cons show ?case by simp
qed

lemma inv_queueRequest:
  assumes "lbInv s" "r < requestCount s" "closures s r = None" "r \<notin> req ` set (requestQueue s)"
  shows "lbInv (queueRequest r path now s)"
proof (cases "int (length (requestQueue s)) \<ge> maxQueueSize (lbConfig s)")
  case True
  then show ?thesis using assms(1) by (simp add: queueRequest_def)
next
  case False
  then show ?thesis using assms
    by (auto simp: queueRequest_def Let_def lbInv_def inflightSet_def)
qed

lemma inv_requestCount:
  assumes "lbInv s"
  shows "lbInv (s\<lparr>requestCount := requestCount s + 1\<rparr>)"
  using assms by (auto simp: lbInv_def inflightSet_def less_Suc_eq)

lemma inv_middleware: "lbInv s \<Longrightarrow> lbInv (middleware path now s)"
proof -
  assume inv: "lbInv s"
  let ?r = "requestCount s"
  let ?s0 = "s\<lparr>requestCount := ?r + 1\<rparr>"
  have inv0: "lbInv ?s0" using inv by (rule inv_requestCount)
  have fresh: "?r < requestCount ?s0" "closures ?s0 ?r = None" "?r \<notin> req ` set (requestQueue ?s0)"
    using inv by (auto simp: lbInv_def)
  show ?thesis
    using inv_queueRequest[OF inv0 fresh] inv_processRequest[OF inv0 fresh]
    by (simp add: middleware_def Let_def)
qed

lemma inv_finish:
  assumes "lbInv s" "closures s r = Some c" "\<not> responseHandled c"
  shows "lbInv (s\<lparr>closures := (closures s)(r \<mapsto> c\<lparr>responseHandled := True\<rparr>),
                  activeRequests := activeRequests s - 1\<rparr>)"
proof -
  let ?s1 = "s\<lparr>closures := (closures s)(r \<mapsto> c\<lparr>responseHandled := True\<rparr>),
                activeRequests := activeRequests s - 1\<rparr>"
  have fin: "finite (inflightSet s)" using assms(1) by (rule inflight_finite)
  have mem: "r \<in> inflightSet s" using assms(2,3) by (simp add: inflightSet_def)
  have eq: "inflightSet ?s1 = inflightSet s - {r}"
    by (auto simp: inflightSet_def)
  have pos: "card (inflightSet s) > 0" using fin mem by (auto simp: card_gt_0_iff)
  have c: "card (inflightSet ?s1) = card (inflightSet s) - 1"
    using fin mem by (simp only: eq card_Diff_singleton)
  have a: "activeRequests ?s1 = int (card (inflightSet s)) - 1"
    using assms(1) by (simp add: lbInv_def)
  have "activeRequests ?s1 = int (card (inflightSet ?s1))"
    unfolding c a using pos by (simp add: of_nat_diff)
  moreover have "\<forall>q \<in> set (requestQueue s). req q \<noteq> r"
    using assms(1,2) by (auto simp: lbInv_def)
  ultimately show ?thesis
    using assms by (auto simp: lbInv_def)
qed

lemma inv_handleResponse: "lbInv s \<Longrightarrow> lbInv (handleResponse r code now s)"
proof (cases "closures s r")
  case None
  assume "lbInv s"
  with None show ?thesis by (simp add: handleResponse_def)
next
  case (Some c)
  assume inv: "lbInv s"
  show ?thesis
  proof (cases "responseHandled c")
    case True
    with Some inv show ?thesis by (simp add: handleResponse_def)
  next
    case False
    from inv_finish[OF inv Some False] show ?thesis
      using Some False by (simp add: handleResponse_def Let_def inv_processNextInQueue)
  qed
qed

lemma set_spliceOut: "set (spliceOut r qs) \<subseteq> set qs"
  by (induction qs) auto

lemma distinct_spliceOut: "distinct (map req qs) \<Longrightarrow> distinct (map req (spliceOut r qs))"
proof (induction qs)
  case Nil
  then show ?case by simp
next
  case (Cons q qs)
  then show ?case using set_spliceOut[of r qs] by auto
qed

lemma inv_timeoutQueuedRequest: "lbInv s \<Longrightarrow> lbInv (timeoutQueuedRequest r s)"
proof -
  assume inv: "lbInv s"
  have "lbInv (s\<lparr>requestQueue := spliceOut r (requestQueue s)\<rparr>)"
    using inv by (intro inv_dequeue set_spliceOut distinct_spliceOut) (simp_all add: lbInv_def)
  then show ?thesis using inv by (simp add: timeoutQueuedRequest_def Let_def)
qed

lemma inv_headersSent [simp]: "lbInv (s\<lparr>headersSent := h\<rparr>) = lbInv s"
  by (rule lbInv_cong) simp_all

lemma inv_lbStep: "lbInv s \<Longrightarrow> lbInv (lbStep s e)"
proof (cases e)
  case (Incoming path now)
  assume "lbInv s"
  with Incoming show ?thesis by (simp add: inv_middleware)
next
  case (ResponseSignal r sig code now)
  assume "lbInv s"
  with ResponseSignal show ?thesis by (cases sig) (simp_all add: inv_handleResponse Let_def)
next
  case (QueueTimerFired r)
  assume "lbInv s"
  with QueueTimerFired show ?thesis by (simp add: inv_timeoutQueuedRequest)
qed

lemma inv_lbRun: "lbInv s \<Longrightarrow> lbInv (lbRun evs s)"
  unfolding lbRun_def by (induction evs arbitrary: s) (simp_all add: inv_lbStep)

lemma inv_new: "lbInv (newLoadBalancer c t0)"
  by (simp add: lbInv_def newLoadBalancer_def inflightSet_def)






lemma closures_check [simp]: "closures (checkAdaptiveThrottling now s) = closures s"
  by (simp add: checkAdaptiveThrottling_def setLimit_def Let_def)


lemmas lbRun_defs =
  lbRun_def loadBalancer_def newLoadBalancer_def noOverrides_def orElse_def
  middleware_def queueRequest_def processRequest_def handleResponse_def respond_def
  recordResponseTime_def recordErrorRate_def checkAdaptiveThrottling_def setLimit_def
  timeoutQueuedRequest_def getRequestPriority_def defaultPriorityLevels_def arraySort_def
  comparePriority_def mean_def above_def below_def getPercentile_def processNextInQueue.simps

lemmas lbStep_defs =
  middleware_def queueRequest_def processRequest_def handleResponse_def respond_def
  recordResponseTime_def recordErrorRate_def checkAdaptiveThrottling_def setLimit_def
  timeoutQueuedRequest_def getRequestPriority_def defaultPriorityLevels_def arraySort_def
  comparePriority_def mean_def above_def below_def getPercentile_def processNextInQueue.simps




subsection \<open>The order of the admission queue\<close>







lemma queueInv_cong:
  assumes "requestQueue s' = requestQueue s" "priorityLevels (lbConfig s') = priorityLevels (lbConfig s)"
  shows "queueInv T s' = queueInv T s"
  using assms by (simp add: queueInv_def)


lemma queueInv_respond [simp]: "queueInv T (respond r code s) = queueInv T s"
  by (rule queueInv_cong) (simp_all add: respond_def)

lemma queueInv_processRequest [simp]: "queueInv T (processRequest r t s) = queueInv T s"
  by (rule queueInv_cong) (simp_all add: processRequest_def)

lemma queueInv_record [simp]:
  "queueInv T (recordResponseTime t s) = queueInv T s"
  "queueInv T (recordErrorRate e s) = queueInv T s"
  by (rule queueInv_cong; simp add: recordResponseTime_def recordErrorRate_def Let_def)+

lemma queueInv_check [simp]: "queueInv T (checkAdaptiveThrottling now s) = queueInv T s"
  by (rule queueInv_cong; simp add: checkAdaptiveThrottling_def setLimit_def Let_def)+







lemma queueInv_requestCount [simp]: "queueInv T (s\<lparr>requestCount := n\<rparr>) = queueInv T s"
  by (rule queueInv_cong) simp_all

lemma queueInv_headersSent [simp]: "queueInv T (s\<lparr>headersSent := h\<rparr>) = queueInv T s"
  by (rule queueInv_cong) simp_all






lemma frames_check [simp]:
  "requestQueue (checkAdaptiveThrottling now s) = requestQueue s"
  "actions (checkAdaptiveThrottling now s) = actions s"
  by (simp_all add: checkAdaptiveThrottling_def setLimit_def Let_def)









subsection \<open>Admission past the queue\<close>

lemma admit_immediately:
  assumes "activeRequests s < limit s"
  shows "requestQueue (lbStep s (Incoming path now)) = requestQueue s
       \<and> actions (lbStep s (Incoming path now)) = actions s @ [CallNext (requestCount s)]
       \<and> activeRequests (lbStep s (Incoming path now)) = activeRequests s + 1"
  using assms by (simp add: middleware_def processRequest_def Let_def)

lemma started_from_queue:
  assumes inv: "lbInv s"
    and q: "q \<in> set (requestQueue s)"
    and new: "CallNext (req q) \<in> set (actions (lbStep s e))" "CallNext (req q) \<notin> set (actions s)"
  shows "\<exists>r sig code now. e = ResponseSignal r sig code now \<and> r \<in> set (inFlight s)"
proof (cases e)
  case (Incoming path now)
  have "req q \<noteq> requestCount s" using inv q by (auto simp: lbInv_def)
  then have False using new Incoming
    by (auto simp: middleware_def queueRequest_def processRequest_def respond_def Let_def
             split: if_splits)
  then show ?thesis ..
next
  case (QueueTimerFired r)
  then have False using new
    by (auto simp: timeoutQueuedRequest_def respond_def Let_def split: if_splits)
  then show ?thesis ..
next
  case (ResponseSignal r sig code now)
  show ?thesis
  proof (cases "\<exists>c. closures s r = Some c \<and> \<not> responseHandled c")
    case True
    then have "r \<in> set (inFlight s)" using inv by (auto simp: inFlight_def lbInv_def)
    with ResponseSignal show ?thesis by blast
  next
    case False
    then have "handleResponse r code' now s = s" for code'
      by (auto simp: handleResponse_def split: option.splits)
    then have False using new ResponseSignal by (cases sig) (simp_all add: Let_def)
    then show ?thesis ..
  qed
qed

text \<open>
  C9. In every state, whatever the queue holds, a request that comes in while
  \<open>activeRequests\<close> is below the limit is started at once (\<open>next()\<close> is called,
  the counter goes up) and the queue stays as it is. And in every state reached from a
  new load balancer, an event that starts a queued request is a response signal of a
  request in flight: queued requests start only when an admitted request finishes.
\<close>

theorem C9_newcomer_runs_first:
  "(activeRequests s < limit s \<longrightarrow>
       requestQueue (lbStep s (Incoming path now)) = requestQueue s
       \<and> actions (lbStep s (Incoming path now)) = actions s @ [CallNext (requestCount s)]
       \<and> activeRequests (lbStep s (Incoming path now)) = activeRequests s + 1)
   \<and> (q \<in> set (requestQueue (lbRun evs (newLoadBalancer cfg t0)))
        \<and> CallNext (req q) \<in> set (actions (lbStep (lbRun evs (newLoadBalancer cfg t0)) e))
        \<and> CallNext (req q) \<notin> set (actions (lbRun evs (newLoadBalancer cfg t0)))
      \<longrightarrow> (\<exists>r sig code now'. e = ResponseSignal r sig code now'
                 \<and> r \<in> set (inFlight (lbRun evs (newLoadBalancer cfg t0)))))"
  using admit_immediately[of s path now]
    started_from_queue[OF inv_lbRun[OF inv_new], of q evs cfg t0 e]
  by blast

text \<open>
  The theorem at the state after \<open>raisedLimit\<close>: request 6, of priority 10, is
  queued, one request is running and the limit is 11. The request 7 that comes in is
  started at once, ahead of request 6, which stays queued; request 6 starts when request
  5 finishes.
\<close>

lemma raisedLimit_run:
  "lbRun raisedLimit (newLoadBalancer limitOne 0) =
     \<lparr>activeRequests = 1,
      requestQueue = [\<lparr>req = 6, timestamp = 4000, priority = Some 10\<rparr>],
      lbConfig = \<lparr>maxConcurrentRequests = 11, maxQueueSize = 1000, requestTimeout = 45000,
                  priorityLevels = defaultPriorityLevels, enableAdaptiveThrottling = True\<rparr>,
      responseTimeHistory = [1, 2, 3, 4, 1000], errorRateHistory = [0, 0, 0, 0, 0],
      lastAdaptiveCheck = 5000,
      closures = [0 \<mapsto> \<lparr>responseHandled = True, startTime = 4000\<rparr>,
                  1 \<mapsto> \<lparr>responseHandled = True, startTime = 4000\<rparr>,
                  2 \<mapsto> \<lparr>responseHandled = True, startTime = 4000\<rparr>,
                  3 \<mapsto> \<lparr>responseHandled = True, startTime = 4000\<rparr>,
                  4 \<mapsto> \<lparr>responseHandled = True, startTime = 4000\<rparr>,
                  5 \<mapsto> \<lparr>responseHandled = False, startTime = 4000\<rparr>],
      headersSent = {4, 3, 2, 1, 0}, requestCount = 7,
      actions = [CallNext 0, CallNext 1, CallNext 2, CallNext 3, CallNext 4, CallNext 5]\<rparr>"
  by (simp add: raisedLimit_def lbRun_defs limitOne_def Let_def
                floor_rat_numeral ceiling_rat_numeral eval_nat_numeral)

theorem C9_newcomer_runs_first_witness:
  "requestQueue (lbRun raisedLimit (newLoadBalancer limitOne 0))
     = [\<lparr>req = 6, timestamp = 4000, priority = Some 10\<rparr>]
   \<and> activeRequests (lbRun raisedLimit (newLoadBalancer limitOne 0)) = 1
   \<and> limit (lbRun raisedLimit (newLoadBalancer limitOne 0)) = 11
   \<and> actions (lbRun raisedLimit (newLoadBalancer limitOne 0))
       = [CallNext 0, CallNext 1, CallNext 2, CallNext 3, CallNext 4, CallNext 5]
   \<and> actions (lbStep (lbRun raisedLimit (newLoadBalancer limitOne 0))
                       (Incoming ''/api/loyalty'' 5001))
       = [CallNext 0, CallNext 1, CallNext 2, CallNext 3, CallNext 4, CallNext 5, CallNext 7]
   \<and> requestQueue (lbStep (lbRun raisedLimit (newLoadBalancer limitOne 0))
                            (Incoming ''/api/loyalty'' 5001))
       = [\<lparr>req = 6, timestamp = 4000, priority = Some 10\<rparr>]
   \<and> actions (lbStep (lbRun raisedLimit (newLoadBalancer limitOne 0))
                       (ResponseSignal 5 ResSend 200 5002))
       = [CallNext 0, CallNext 1, CallNext 2, CallNext 3, CallNext 4, CallNext 5, CallNext 6]"
  using C9_newcomer_runs_first
          [of "lbRun raisedLimit (newLoadBalancer limitOne 0)" "''/api/loyalty''" 5001
              "\<lparr>req = 6, timestamp = 4000, priority = Some 10\<rparr>" raisedLimit limitOne 0
              "ResponseSignal 5 ResSend 200 5002"]
  unfolding raisedLimit_run
  by (simp add: lbStep_defs Let_def inFlight_def eval_nat_numeral)

section \<open>Properties of the connection pool\<close>

lemmas pool_defs =
  transaction_def getConnection_def transactionBody_def transactionCatch_def called_def

text \<open>
  C1, counterexample. The callback throws \<open>fn failed\<close> and the \<open>ROLLBACK\<close> query
  rejects with \<open>connection lost\<close>: the client is released once, after the
  \<open>ROLLBACK\<close>, but the error that reaches the caller is \<open>connection lost\<close>, not
  the error of the callback (and \<open>totalErrors\<close> is not incremented).
\<close>

theorem C1_rollback_error_counterexample:
  "transaction brokenRollback newPool =
     (Inl ''connection lost'',
      \<lparr>totalErrors = 0,
        calls = [Connect, Query ''BEGIN'', Callback, Query ''ROLLBACK'', Release]\<rparr>)"
  by (simp add: pool_defs brokenRollback_def newPool_def)

text \<open>
  C1, as amended. When \<open>pool.connect()\<close> gives a client, \<open>transaction\<close> releases it
  exactly once, as its last call, on every path; when it ends with an error, a
  \<open>ROLLBACK\<close> was issued before the release. When the callback throws \<open>err\<close>, the
  calls are \<open>BEGIN\<close>, the callback, \<open>ROLLBACK\<close>, release, and the caller gets
  \<open>err\<close> if the \<open>ROLLBACK\<close> succeeds and the error of the \<open>ROLLBACK\<close>
  otherwise; the same holds when \<open>COMMIT\<close> throws. When nothing throws, the caller
  gets the result of the callback.
\<close>

theorem C1_transaction_release:
  assumes "connectResult db = Inr client"
  shows "(\<exists>cs. calls (snd (transaction db st)) = calls st @ Connect # cs @ [Release]
              \<and> Release \<notin> set cs \<and> Connect \<notin> set cs
              \<and> ((\<exists>e. fst (transaction db st) = Inl e) \<longrightarrow> Query ''ROLLBACK'' \<in> set cs))
     \<and> (queryResult db ''BEGIN'' = Inr u \<and> callbackResult db = Inl err \<longrightarrow>
          calls (snd (transaction db st))
            = calls st @ [Connect, Query ''BEGIN'', Callback, Query ''ROLLBACK'', Release]
          \<and> fst (transaction db st)
            = (case queryResult db ''ROLLBACK'' of
                 Inr _ \<Rightarrow> Inl err
               | Inl rollbackErr \<Rightarrow> Inl rollbackErr))
     \<and> (queryResult db ''BEGIN'' = Inr u \<and> callbackResult db = Inr result
          \<and> queryResult db ''COMMIT'' = Inl err \<longrightarrow>
          calls (snd (transaction db st))
            = calls st @ [Connect, Query ''BEGIN'', Callback, Query ''COMMIT'',
                          Query ''ROLLBACK'', Release]
          \<and> fst (transaction db st)
            = (case queryResult db ''ROLLBACK'' of
                 Inr _ \<Rightarrow> Inl err
               | Inl rollbackErr \<Rightarrow> Inl rollbackErr))
     \<and> (queryResult db ''BEGIN'' = Inr u \<and> callbackResult db = Inr result
          \<and> queryResult db ''COMMIT'' = Inr u' \<longrightarrow>
          transaction db st
            = (Inr result,
               st\<lparr>calls := calls st @ [Connect, Query ''BEGIN'', Callback, Query ''COMMIT'',
                                        Release]\<rparr>))"
  using assms
  by (auto simp: pool_defs Let_def split: sum.splits)

theorem C1_transaction_release_witness:
  "transaction failingCallback newPool =
     (Inl ''fn failed'',
      \<lparr>totalErrors = 1,
        calls = [Connect, Query ''BEGIN'', Callback, Query ''ROLLBACK'', Release]\<rparr>)"
  using C1_transaction_release [of failingCallback "()" newPool "()" "''fn failed''"]
  by (simp add: pool_defs failingCallback_def newPool_def)

subsection \<open>Waiting for a connection\<close>

lemmas timedPool_defs =
  poolRun_def poolStep_def pgTimers_def pgConnect_def pgRelease_def timerDue_def
  newEnhancedConnectionPool_def newPgPool_def mergedConfig_def orElse_def
  connectionPromise_def

lemma threeAcquires_state:
  "threeAcquires =
     \<lparr> poolConfig = \<lparr>optMax = 2, optAcquireTimeoutMillis = 100,
                      optConnectionTimeoutMillis = None\<rparr>,
       pool = \<lparr> pgMax = 2, pgConnectionTimeoutMillis = 0, pgIdle = 0, pgCheckedOut = 2,
                pgPendingQueue = [(2, None)], pgPromises = [Fulfilled, Fulfilled, Pending] \<rparr>,
       metricsTotalErrors = 0 \<rparr>"
  by (simp add: threeAcquires_def smallPool_def timedPool_defs)

lemma time_passes_without_timer:
  assumes "\<forall>w \<in> set (pgPendingQueue (pool s)). snd w = None"
  shows "poolRun (map TimePasses ts) s = s"
  using assms
proof (induction ts)
  case Nil
  show ?case by (simp add: poolRun_def)
next
  case (Cons t ts)
  have "filter (timerDue t) (pgPendingQueue (pool s)) = []"
    using Cons.prems by (auto simp: filter_empty_conv timerDue_def)
  moreover have "filter (\<lambda>w. \<not> timerDue t w) (pgPendingQueue (pool s)) = pgPendingQueue (pool s)"
    using Cons.prems by (auto simp: filter_id_conv timerDue_def)
  ultimately have "poolStep s (TimePasses t) = s"
    by (simp add: poolStep_def pgTimers_def)
  with Cons show ?case by (simp add: poolRun_def)
qed

lemma checkedOut_step:
  assumes "int (pgCheckedOut (pool s) + pgIdle (pool s)) \<le> max 0 (pgMax (pool s))"
  shows "int (pgCheckedOut (pool (poolStep s e)) + pgIdle (pool (poolStep s e)))
           \<le> max 0 (pgMax (pool (poolStep s e)))"
    and "pgMax (pool (poolStep s e)) = pgMax (pool s)"
  using assms
  by (cases e;
      auto simp: poolStep_def pgTimers_def pgConnect_def pgRelease_def Let_def
           split: list.splits prod.splits)+

lemma checkedOut_run:
  assumes "int (pgCheckedOut (pool s) + pgIdle (pool s)) \<le> max 0 (pgMax (pool s))"
  shows "int (pgCheckedOut (pool (poolRun evs s)) + pgIdle (pool (poolRun evs s)))
           \<le> max 0 (pgMax (pool s))
         \<and> pgMax (pool (poolRun evs s)) = pgMax (pool s)"
  using assms
proof (induction evs arbitrary: s)
  case Nil
  then show ?case by (simp add: poolRun_def)
next
  case (Cons e evs)
  have step: "int (pgCheckedOut (pool (poolStep s e)) + pgIdle (pool (poolStep s e)))
                \<le> max 0 (pgMax (pool (poolStep s e)))"
    and same: "pgMax (pool (poolStep s e)) = pgMax (pool s)"
    using checkedOut_step[OF Cons.prems, of e] by blast+
  from Cons.IH[OF step] same show ?case by (simp add: poolRun_def)
qed

text \<open>
  C8, the code at an input on which it does not do what the claim says. A pool is made
  with \<open>max\<close> 2 and \<open>acquireTimeoutMillis\<close> 100, and \<open>getConnection()\<close> is
  called three times at time 0. The first two calls get the two connections. The third
  waits, and whatever time passes (any sequence of later times, nothing released) its
  promise stays pending and no error is counted: the acquire timeout of the
  configuration, 100, is read by nothing. With the timeouts of the pool of the module
  (\<open>acquireTimeoutMillis\<close> 15000, \<open>connectionTimeoutMillis\<close> 10000) the third
  call is still pending at time 9999 and is rejected at time 10000, by the timer of the
  library and with its error, not after the acquire timeout. What does hold, on every
  pool and after every sequence of events: no more than \<open>max\<close> connections are
  checked out.
\<close>

theorem C8_acquire_never_times_out:
  "connectionPromise 2 (poolRun (map TimePasses ts) threeAcquires) = Pending
   \<and> metricsTotalErrors (poolRun (map TimePasses ts) threeAcquires) = 0
   \<and> optAcquireTimeoutMillis (poolConfig threeAcquires) = 100
   \<and> connectionPromise 2
        (poolRun [GetConnection 0, GetConnection 0, GetConnection 0, TimePasses 9999]
           modulePool) = Pending
   \<and> connectionPromise 2
        (poolRun [GetConnection 0, GetConnection 0, GetConnection 0, TimePasses 10000]
           modulePool) = Rejected ''timeout exceeded when trying to connect''
   \<and> int (pgCheckedOut (pool (poolRun evs (newEnhancedConnectionPool c))))
        \<le> max 0 (optMax (mergedConfig c))"
proof -
  have fixed: "poolRun (map TimePasses ts) threeAcquires = threeAcquires"
    by (rule time_passes_without_timer) (simp add: threeAcquires_state)
  have bound: "int (pgCheckedOut (pool (poolRun evs (newEnhancedConnectionPool c))))
                 \<le> max 0 (optMax (mergedConfig c))"
    using checkedOut_run[of "newEnhancedConnectionPool c" evs]
    by (simp add: newEnhancedConnectionPool_def newPgPool_def)
  show ?thesis
    unfolding fixed
    using bound
    by (simp add: threeAcquires_state modulePool_def timedPool_defs)
qed

end
